theory Spec2Isabelle
  imports Complex_Main
begin

section \<open>Conventions of the embedding\<close>

text \<open>
  The development embeds the storage layout of spherical-harmonic coefficients
  (\<^verbatim>\<open>Alm_Base\<close>, \<^verbatim>\<open>Alm\<close>), the rotation driver \<^verbatim>\<open>rotate_alm\<close> with its Wigner
  recurrer, and the work scheduler \<^verbatim>\<open>Distribution\<close> of the threading file.

  \<^item> A \<^verbatim>\<open>size_t\<close> value is a \<open>nat\<close> below \<open>2 ^ 64\<close> and a \<^verbatim>\<open>ptrdiff_t\<close> value an \<open>int\<close>
    from \<open>- 2 ^ 63\<close> up to, but not including, \<open>2 ^ 63\<close>. Every sum, difference and
    product that the source forms in these types is reduced modulo \<open>2 ^ 64\<close>: the
    functions \<open>size_t\<close> and \<open>ptrdiff_t\<close> below are the two conversions, applied to
    the exact result (which is the same as reducing after every single step,
    since reduction commutes with \<open>+\<close>, \<open>-\<close> and \<open>*\<close>). The arguments of type
    \<^verbatim>\<open>size_t\<close> that the entry points receive are meant to be below \<open>2 ^ 64\<close>.
  \<^item> The allocation of a vector succeeds whatever its size: memory is not
    modelled.
  \<^item> \<^verbatim>\<open>double\<close> is \<open>real\<close>. Where a \<^verbatim>\<open>double\<close> decides an integer result, namely in
    the chunk size of guided scheduling, every operation is rounded to the
    nearest \<^verbatim>\<open>double\<close> (\<open>to_double\<close>). The arithmetic on the coefficients
    themselves (\<^verbatim>\<open>complex<T>\<close>, the Wigner matrices) is exact: rounding is not
    modelled there.
  \<^item> \<^verbatim>\<open>MR_assert\<close> aborts with a message; the model returns \<open>Inl (ShapeError msg)\<close>.
    An access outside a vector or array, which C++ leaves undefined, is
    \<open>Inl OutOfRange\<close>, and a conversion from \<^verbatim>\<open>double\<close> to \<^verbatim>\<open>size_t\<close> of a value that
    \<^verbatim>\<open>size_t\<close> cannot hold is \<open>Inl BadConversion\<close>.
\<close>

datatype error = ShapeError string | OutOfRange | BadConversion

definition size_t :: "int \<Rightarrow> nat" where
  "size_t i = nat (i mod 2 ^ 64)"

definition ptrdiff_t :: "int \<Rightarrow> int" where
  "ptrdiff_t i = (i + 2 ^ 63) mod 2 ^ 64 - 2 ^ 63"

section \<open>The index scheme \<^verbatim>\<open>Alm_Base\<close>\<close>

record Alm_Base =
  lmax :: nat
  arrsize :: nat
  mval :: "nat list"
  mstart :: "int list"

text \<open>
  \<^verbatim>\<open>Num_Alms(l, m)\<close>: asserts \<^verbatim>\<open>m<=l\<close>, then
  \<^verbatim>\<open>((m+1)*(m+2))/2 + (m+1)*(l-m)\<close> in \<^verbatim>\<open>size_t\<close>: the two products and the sum
  wrap, and the division by two acts on the wrapped product.
\<close>

definition Num_Alms :: "nat \<Rightarrow> nat \<Rightarrow> error + nat" where
  "Num_Alms l m =
     (if m \<le> l
      then Inr (((((m + 1) * (m + 2)) mod 2 ^ 64) div 2 + ((m + 1) * (l - m)) mod 2 ^ 64)
                  mod 2 ^ 64)
      else Inl (ShapeError ''mmax must not be larger than lmax''))"

text \<open>
  The validation loop shared by the two sparse constructors: every \<^verbatim>\<open>mval[i]\<close>
  is at most \<^verbatim>\<open>lmax\<close>, and larger than its predecessor.
\<close>

function check_mval :: "nat \<Rightarrow> nat list \<Rightarrow> nat \<Rightarrow> error + unit" where
  "check_mval lmx mv i =
     (if i < length mv then
        (if \<not> mv ! i \<le> lmx then Inl (ShapeError ''m >= lmax'')
         else if i > 0 \<and> \<not> mv ! i > mv ! (i - 1)
           then Inl (ShapeError ''m not strictly ascending'')
         else check_mval lmx mv (Suc i))
      else Inr ())"
  by pat_completeness auto
termination
  by (relation "measure (\<lambda>(lmx, mv, i). length mv - i)") auto

declare check_mval.simps [simp del]




text \<open>
  Sparse implicit constructor \<^verbatim>\<open>Alm_Base(lmax_, mval_)\<close>. Its loop is
  \<^verbatim>\<open>for (size_t i=0, cnt=0; i<mval.size(); ++i, cnt+=lmax-mval[i]+1)
    mstart[mval[i]] = ptrdiff_t(cnt)-ptrdiff_t(mval[i]);\<close>
  The increment expression first advances \<open>i\<close> and then reads \<^verbatim>\<open>mval[i]\<close> at the
  advanced index. After the last round that index is \<^verbatim>\<open>mval.size()\<close>, one past
  the end: the value read there is the parameter \<open>past_end\<close> (C++ leaves the read
  undefined; the counter is not used afterwards).
\<close>

function implicit_loop ::
  "nat \<Rightarrow> nat \<Rightarrow> nat list \<Rightarrow> nat \<Rightarrow> nat \<Rightarrow> int list \<Rightarrow> error + int list" where
  "implicit_loop past_end lmx mv i cnt ms =
     (if i < length mv then
        (if mv ! i < length ms then
           (let ms' = ms[mv ! i := ptrdiff_t (ptrdiff_t (int cnt) - ptrdiff_t (int (mv ! i)))];
                i' = Suc i;
                cnt' = size_t (int cnt + int lmx
                         - int (if i' < length mv then mv ! i' else past_end) + 1)
            in implicit_loop past_end lmx mv i' cnt' ms')
         else Inl OutOfRange)
      else Inr ms)"
  by pat_completeness auto
termination
  by (relation "measure (\<lambda>(pe, lmx, mv, i, cnt, ms). length mv - i)") auto

declare implicit_loop.simps [simp del]

definition Alm_Base_mval :: "nat \<Rightarrow> nat \<Rightarrow> nat list \<Rightarrow> error + Alm_Base" where
  "Alm_Base_mval past_end lmax' mval' =
     (if \<not> length mval' > 0 then Inl (ShapeError ''no m indices supplied'')
      else case check_mval lmax' mval' 0 of
        Inl e \<Rightarrow> Inl e
      | Inr _ \<Rightarrow>
          (case implicit_loop past_end lmax' mval' 0 0
                  (replicate (size_t (int (last mval') + 1)) (ptrdiff_t (- 2 * int lmax'))) of
             Inl e \<Rightarrow> Inl e
           | Inr ms \<Rightarrow>
               if ms = [] then Inl OutOfRange
               else Inr \<lparr>lmax = lmax',
                         arrsize = size_t (ptrdiff_t (last ms + ptrdiff_t (int lmax' + 1))),
                         mval = mval', mstart = ms\<rparr>))"

text \<open>
  Dense constructor \<^verbatim>\<open>Alm_Base(lmax_, mmax_)\<close>: both vectors have \<^verbatim>\<open>mmax_+1\<close>
  entries (none when \<^verbatim>\<open>mmax_+1\<close> wraps to \<open>0\<close>); the loop runs \<^verbatim>\<open>m = 0 .. mmax_\<close>
  with the running offset \<^verbatim>\<open>idx\<close>, a \<^verbatim>\<open>ptrdiff_t\<close>, and the closing call of
  \<^verbatim>\<open>Num_Alms\<close> carries the assertion \<^verbatim>\<open>mmax_ <= lmax_\<close>. The counter \<open>m\<close> itself
  never wraps before a write leaves the vectors, which have fewer than \<open>2 ^ 64\<close>
  entries.
\<close>

function dense_loop ::
  "nat \<Rightarrow> nat \<Rightarrow> nat \<Rightarrow> int \<Rightarrow> nat list \<times> int list \<Rightarrow> error + nat list \<times> int list" where
  "dense_loop lmx mmx m idx (mv, ms) =
     (if m \<le> mmx then
        (if m < length mv \<and> m < length ms then
           dense_loop lmx mmx (Suc m) (ptrdiff_t (idx + (int lmx - int m + 1)))
             (mv[m := m], ms[m := ptrdiff_t (idx - int m)])
         else Inl OutOfRange)
      else Inr (mv, ms))"
  by pat_completeness auto
termination
  by (relation "measure (\<lambda>(lmx, mmx, m, idx, st). Suc mmx - m)") auto

declare dense_loop.simps [simp del]

definition Alm_Base_lmax_mmax :: "nat \<Rightarrow> nat \<Rightarrow> error + Alm_Base" where
  "Alm_Base_lmax_mmax lmax' mmax' =
     (case dense_loop lmax' mmax' 0 0
             (replicate (size_t (int mmax' + 1)) 0, replicate (size_t (int mmax' + 1)) 0) of
        Inl e \<Rightarrow> Inl e
      | Inr (mv, ms) \<Rightarrow>
          (case Num_Alms lmax' mmax' of
             Inl e \<Rightarrow> Inl e
           | Inr n \<Rightarrow> Inr \<lparr>lmax = lmax', arrsize = n, mval = mv, mstart = ms\<rparr>))"

definition Lmax :: "'z Alm_Base_scheme \<Rightarrow> nat" where
  "Lmax b = lmax b"


definition n_entries :: "'z Alm_Base_scheme \<Rightarrow> nat" where
  "n_entries b = arrsize b"

text \<open>
  \<^verbatim>\<open>index_l0(m)\<close> returns \<^verbatim>\<open>mstart[m]\<close> converted to \<^verbatim>\<open>size_t\<close>, and \<^verbatim>\<open>index(l, m)\<close>
  adds \<open>l\<close> in \<^verbatim>\<open>size_t\<close>: a negative offset is held modulo \<open>2 ^ 64\<close> and adding \<open>l\<close>
  wraps back. Reading the table beyond its end is \<open>OutOfRange\<close>.
\<close>

definition index_l0 :: "'z Alm_Base_scheme \<Rightarrow> nat \<Rightarrow> error + nat" where
  "index_l0 b m = (if m < length (mstart b) then Inr (size_t (mstart b ! m)) else Inl OutOfRange)"

definition index :: "'z Alm_Base_scheme \<Rightarrow> nat \<Rightarrow> nat \<Rightarrow> error + nat" where
  "index b l m = (case index_l0 b m of Inl e \<Rightarrow> Inl e | Inr i0 \<Rightarrow> Inr ((i0 + l) mod 2 ^ 64))"


text \<open>\<^verbatim>\<open>complete()\<close>: \<^verbatim>\<open>mval.size() == lmax+1\<close>, the right-hand side in \<^verbatim>\<open>size_t\<close>.\<close>

definition complete :: "'z Alm_Base_scheme \<Rightarrow> bool" where
  "complete b \<longleftrightarrow> length (mval b) = (lmax b + 1) mod 2 ^ 64"


section \<open>The coefficient store \<^verbatim>\<open>Alm<T>\<close>\<close>

text \<open>
  Modelled from the spec: the array view \<^verbatim>\<open>mav\<close> of \<^verbatim>\<open>ducc0/infra/mav.h\<close> is not
  among the sources. The one-dimensional view \<^verbatim>\<open>mav<T,1>\<close> is a contiguous buffer
  with a length and element access by flat index; it is a list here, \<^verbatim>\<open>alm.v(i)\<close>
  and \<^verbatim>\<open>alm(i)\<close> are \<open>mav_set\<close> and \<open>mav_get\<close>, and an index outside the buffer is
  \<open>OutOfRange\<close>.
\<close>

definition mav_get :: "'a list \<Rightarrow> nat \<Rightarrow> error + 'a" where
  "mav_get xs i = (if i < length xs then Inr (xs ! i) else Inl OutOfRange)"

definition mav_set :: "'a list \<Rightarrow> nat \<Rightarrow> 'a \<Rightarrow> error + 'a list" where
  "mav_set xs i v = (if i < length xs then Inr (xs[i := v]) else Inl OutOfRange)"

text \<open>
  \<^verbatim>\<open>for (size_t i=a; i<b; ++i) body\<close>, stopping at the first failure of the body.
  The loops of the form \<^verbatim>\<open>for (size_t l=m; l<=lmax; ++l)\<close> are taken with the bound
  \<open>lmax + 1\<close>. (With \<^verbatim>\<open>lmax\<close> the largest \<^verbatim>\<open>size_t\<close> the C++ loop would not end by
  its condition; it then ends as the model does, in an access outside the
  buffer, since the \<open>2 ^ 64\<close> indices \<^verbatim>\<open>index(l, m)\<close> of one column are all
  different and a buffer has fewer slots.)
\<close>

function for_loop :: "nat \<Rightarrow> nat \<Rightarrow> (nat \<Rightarrow> 's \<Rightarrow> error + 's) \<Rightarrow> 's \<Rightarrow> error + 's" where
  "for_loop i n body s =
     (if i < n then
        (case body i s of Inl e \<Rightarrow> Inl e | Inr s' \<Rightarrow> for_loop (Suc i) n body s')
      else Inr s)"
  by pat_completeness auto
termination
  by (relation "measure (\<lambda>(i, n, body, s). n - i)") auto

declare for_loop.simps [simp del]

record 'a Alm = Alm_Base +
  alm :: "'a list"

text \<open>
  \<^verbatim>\<open>Alm(mav<T,1> &data, lmax_, mmax_)\<close>: the base is built first, then the buffer
  adopted, then \<^verbatim>\<open>MR_assert(alm.size()==Num_Alms(lmax, mmax_), "bad array size")\<close>.
\<close>

definition Alm_data :: "'a list \<Rightarrow> nat \<Rightarrow> nat \<Rightarrow> error + 'a Alm" where
  "Alm_data data lmax' mmax' =
     (case Alm_Base_lmax_mmax lmax' mmax' of
        Inl e \<Rightarrow> Inl e
      | Inr b \<Rightarrow>
         (case Num_Alms (lmax b) mmax' of
            Inl e \<Rightarrow> Inl e
          | Inr n \<Rightarrow>
             if length data = n
             then Inr \<lparr>lmax = lmax b, arrsize = arrsize b, mval = mval b,
                       mstart = mstart b, alm = data\<rparr>
             else Inl (ShapeError ''bad array size'')))"

text \<open>\<^verbatim>\<open>operator()(l, m)\<close>, as a read and as a write through the returned reference.\<close>

definition Alm_get :: "'a Alm \<Rightarrow> nat \<Rightarrow> nat \<Rightarrow> error + 'a" where
  "Alm_get A l m = (case index A l m of Inl e \<Rightarrow> Inl e | Inr i \<Rightarrow> mav_get (alm A) i)"

definition Alm_put :: "'a Alm \<Rightarrow> nat \<Rightarrow> nat \<Rightarrow> 'a \<Rightarrow> error + 'a Alm" where
  "Alm_put A l m v =
     (case index A l m of
        Inl e \<Rightarrow> Inl e
      | Inr i \<Rightarrow> (case mav_set (alm A) i v of
                     Inl e \<Rightarrow> Inl e
                   | Inr buf \<Rightarrow> Inr (A\<lparr>alm := buf\<rparr>)))"




definition SetToZero :: "('a::zero) Alm \<Rightarrow> 'a Alm" where
  "SetToZero A = A\<lparr>alm := replicate (length (alm A)) 0\<rparr>"






text \<open>\<^verbatim>\<open>Add(const T2 &num)\<close>: adds to \<open>a(0,0)\<close>.\<close>

definition Add_num :: "('a::plus) \<Rightarrow> 'a Alm \<Rightarrow> error + 'a Alm" where
  "Add_num num A =
     (case mval A of
        [] \<Rightarrow> Inl OutOfRange
      | m0 # _ \<Rightarrow>
         if \<not> m0 = 0 then Inl (ShapeError ''cannot add a constant: no m=0 mode present'')
         else (case index_l0 A 0 of
                 Inl e \<Rightarrow> Inl e
               | Inr i \<Rightarrow>
                  (case mav_get (alm A) i of
                     Inl e \<Rightarrow> Inl e
                   | Inr v \<Rightarrow> Inr (A\<lparr>alm := (alm A)[i := v + num]\<rparr>))))"



section \<open>The scheduler \<^verbatim>\<open>Distribution\<close>\<close>

text \<open>
  Modelled from the spec: the type \<^verbatim>\<open>Range\<close> of \<^verbatim>\<open>ducc0/infra/threading.h\<close> is not
  among the sources. A range is the half-open interval \<open>[lo, hi)\<close> of work items,
  and the default-constructed \<^verbatim>\<open>Range()\<close> is ``the empty range'', taken as \<open>[0, 0)\<close>.
\<close>

record Range =
  lo :: nat
  hi :: nat

definition Range_empty :: Range where
  "Range_empty = \<lparr>lo = 0, hi = 0\<rparr>"

definition items :: "Range \<Rightarrow> nat set" where
  "items r = {lo r ..< hi r}"

datatype SchedMode = SINGLE | STATIC | DYNAMIC

text \<open>
  The members \<^verbatim>\<open>nthreads_\<close>, \<^verbatim>\<open>nwork_\<close>, \<^verbatim>\<open>cur_\<close>, \<^verbatim>\<open>chunksize_\<close> and \<^verbatim>\<open>fact_max_\<close>
  are written without the trailing underscore; the arguments of the entry
  points carry a prime instead.
\<close>

record Distribution =
  nthreads :: nat
  nwork :: nat
  cur :: nat
  chunksize :: nat
  fact_max :: real
  nextstart :: "nat list"
  mode :: SchedMode
  single_done :: bool

text \<open>
  The process-wide \<^verbatim>\<open>default_nthreads_\<close> starts as
  \<^verbatim>\<open>max(1, hardware_concurrency())\<close> (\<open>max_threads\<close>) and is only written by
  \<^verbatim>\<open>set_default_nthreads\<close>; the entry points below receive its current value as
  their first argument \<open>dn\<close>. Both writers keep it at \<open>1\<close> or more, which the
  theorems on the entry points assume.
\<close>

definition max_threads :: "nat \<Rightarrow> nat" where
  "max_threads hardware_concurrency = max 1 hardware_concurrency"

definition set_default_nthreads :: "nat \<Rightarrow> nat" where
  "set_default_nthreads new_default_nthreads = max 1 new_default_nthreads"

text \<open>
  The member functions \<^verbatim>\<open>execSingle\<close>, \<^verbatim>\<open>execStatic\<close>, \<^verbatim>\<open>execDynamic\<close> and
  \<^verbatim>\<open>execParallel\<close> set the fields and end in \<^verbatim>\<open>thread_map(f)\<close>. Each model
  function returns the \<^verbatim>\<open>Distribution\<close> as it stands when \<^verbatim>\<open>thread_map\<close> starts
  the workers; the workers then call \<open>getNext\<close>. The pool, the latch and
  \<^verbatim>\<open>thread_map\<close> itself are not embedded, nor is the variant of the file that is
  compiled without threads.
\<close>

definition Distribution_execSingle :: "Distribution \<Rightarrow> nat \<Rightarrow> Distribution" where
  "Distribution_execSingle d nwork' =
     d\<lparr>mode := SINGLE, single_done := False, nwork := nwork', nthreads := 1\<rparr>"

text \<open>\<^verbatim>\<open>nextstart.resize(n)\<close> keeps the leading entries and pads with zeros.\<close>

definition resize :: "nat list \<Rightarrow> nat \<Rightarrow> nat list" where
  "resize xs n = take n xs @ replicate (n - length xs) 0"

text \<open>\<^verbatim>\<open>for (size_t i=0; i<nextstart.size(); ++i) nextstart[i] = i*chunksize_;\<close>\<close>

function nextstart_loop :: "nat \<Rightarrow> nat \<Rightarrow> nat list \<Rightarrow> nat list" where
  "nextstart_loop chunk i ns =
     (if i < length ns then nextstart_loop chunk (Suc i) (ns[i := (i * chunk) mod 2 ^ 64])
      else ns)"
  by pat_completeness auto
termination
  by (relation "measure (\<lambda>(chunk, i, ns). length ns - i)") auto

declare nextstart_loop.simps [simp del]

text \<open>
  \<^verbatim>\<open>execStatic\<close>: the default chunk size is \<^verbatim>\<open>(nwork_+nthreads_-1)/nthreads_\<close> with
  the numerator in \<^verbatim>\<open>size_t\<close>.
\<close>

definition Distribution_execStatic ::
  "nat \<Rightarrow> Distribution \<Rightarrow> nat \<Rightarrow> nat \<Rightarrow> nat \<Rightarrow> Distribution" where
  "Distribution_execStatic dn d nwork' nthreads' chunksize' =
     (let d1 = d\<lparr>mode := STATIC,
                 nthreads := (if nthreads' = 0 then dn else nthreads'),
                 nwork := nwork'\<rparr>;
          d2 = d1\<lparr>chunksize :=
                 (if chunksize' < 1
                  then size_t (int (nwork d1) + int (nthreads d1) - 1) div nthreads d1
                  else chunksize')\<rparr>
      in if chunksize d2 \<ge> nwork d2 then Distribution_execSingle d2 (nwork d2)
         else d2\<lparr>nextstart :=
                   nextstart_loop (chunksize d2) 0 (resize (nextstart d2) (nthreads d2))\<rparr>)"

text \<open>\<^verbatim>\<open>execDynamic\<close>: the test \<^verbatim>\<open>chunksize_*nthreads_>=nwork_\<close> is on the wrapped product.\<close>

definition Distribution_execDynamic ::
  "nat \<Rightarrow> Distribution \<Rightarrow> nat \<Rightarrow> nat \<Rightarrow> nat \<Rightarrow> real \<Rightarrow> Distribution" where
  "Distribution_execDynamic dn d nwork' nthreads' chunksize_min' fact_max' =
     (let d1 = d\<lparr>mode := DYNAMIC,
                 nthreads := (if nthreads' = 0 then dn else nthreads'),
                 nwork := nwork'\<rparr>;
          d2 = d1\<lparr>chunksize := (if chunksize_min' < 1 then 1 else chunksize_min')\<rparr>
      in if (chunksize d2 * nthreads d2) mod 2 ^ 64 \<ge> nwork d2
         then Distribution_execStatic dn d2 nwork' nthreads' 0
         else d2\<lparr>fact_max := fact_max', cur := 0\<rparr>)"

definition Distribution_execParallel :: "nat \<Rightarrow> Distribution \<Rightarrow> nat \<Rightarrow> Distribution" where
  "Distribution_execParallel dn d nthreads' =
     (let d1 = d\<lparr>mode := STATIC, nthreads := (if nthreads' = 0 then dn else nthreads')\<rparr>
      in d1\<lparr>nwork := nthreads d1, chunksize := 1\<rparr>)"

text \<open>
  Arithmetic in \<^verbatim>\<open>double\<close> (IEEE 754 binary64, rounding to nearest, ties to even).
  \<open>rne y\<close> is the integer nearest to \<open>y\<close>, the even one of two that are equally
  near. A \<^verbatim>\<open>double\<close> other than zero is an integer multiple of
  \<open>2 ^ (e - 52)\<close>, where \<open>2 ^ e\<close> is the power of two at or below its magnitude and
  \<open>e\<close> is at least \<open>- 1022\<close>; \<open>to_double x\<close> is the multiple nearest to \<open>x\<close>. A
  result of magnitude \<open>2 ^ 1024\<close> or more stands for an infinity: every value
  computed from it below is again that large and ends in \<open>BadConversion\<close>, as the
  conversion of an infinity does.
\<close>

definition rne :: "real \<Rightarrow> int" where
  "rne y =
     (let f = \<lfloor>y\<rfloor>; r = y - of_int f
      in if r < 1 / 2 then f else if 1 / 2 < r then f + 1 else if even f then f else f + 1)"

definition double_exponent :: "real \<Rightarrow> int" where
  "double_exponent x = max \<lfloor>log 2 \<bar>x\<bar>\<rfloor> (- 1022)"

definition to_double :: "real \<Rightarrow> real" where
  "to_double x =
     (if x = 0 then 0
      else of_int (rne (x / 2 powr (of_int (double_exponent x) - 52)))
             * 2 powr (of_int (double_exponent x) - 52))"

text \<open>
  \<^verbatim>\<open>getNext(thread_id)\<close>. In the \<^verbatim>\<open>STATIC\<close> case \<^verbatim>\<open>nextstart[thread_id]\<close> is an
  unchecked vector access, and \<^verbatim>\<open>lo+chunksize_\<close> and the advance by
  \<^verbatim>\<open>nthreads_*chunksize_\<close> are in \<^verbatim>\<open>size_t\<close>. In the \<^verbatim>\<open>DYNAMIC\<close> case the mutex makes
  each call one atomic step on the shared state;
  \<^verbatim>\<open>size_t((fact_max_*double(rem))/double(nthreads_))\<close> converts \<open>rem\<close> and
  \<^verbatim>\<open>nthreads_\<close> to \<^verbatim>\<open>double\<close>, rounds the product and the quotient, and converts to
  \<^verbatim>\<open>size_t\<close>, which truncates and is undefined in C++ for a quotient of \<open>-1\<close> or
  less, for one of \<open>2 ^ 64\<close> or more, and for the infinite or undefined quotient
  of a division by zero.
\<close>

definition getNext :: "Distribution \<Rightarrow> nat \<Rightarrow> error + Range \<times> Distribution" where
  "getNext d thread_id =
     (case mode d of
        SINGLE \<Rightarrow>
          if single_done d then Inr (Range_empty, d)
          else Inr (\<lparr>lo = 0, hi = nwork d\<rparr>, d\<lparr>single_done := True\<rparr>)
      | STATIC \<Rightarrow>
          if \<not> thread_id < length (nextstart d) then Inl OutOfRange
          else if nextstart d ! thread_id \<ge> nwork d then Inr (Range_empty, d)
          else
            (let lo' = nextstart d ! thread_id;
                 hi' = min ((lo' + chunksize d) mod 2 ^ 64) (nwork d)
             in Inr (\<lparr>lo = lo', hi = hi'\<rparr>,
                     d\<lparr>nextstart := (nextstart d)
                          [thread_id := (nextstart d ! thread_id + nthreads d * chunksize d)
                                          mod 2 ^ 64]\<rparr>))
      | DYNAMIC \<Rightarrow>
          if cur d \<ge> nwork d then Inr (Range_empty, d)
          else
            (let rem = nwork d - cur d;
                 quot = to_double (to_double (fact_max d * to_double (real rem))
                                     / to_double (real (nthreads d)))
             in if nthreads d = 0 \<or> quot \<le> - 1 \<or> 2 ^ 64 \<le> quot then Inl BadConversion
                else
                  (let tmp = nat \<lfloor>quot\<rfloor>;
                       sz = min rem (max (chunksize d) tmp);
                       lo' = cur d;
                       d' = d\<lparr>cur := cur d + sz\<rparr>
                   in Inr (\<lparr>lo = lo', hi = cur d'\<rparr>, d'))))"

text \<open>
  The free functions declare a local \<^verbatim>\<open>Distribution dist;\<close>. Its vector
  \<^verbatim>\<open>nextstart\<close> is empty; the other members are left uninitialised, and \<open>u\<close> stands
  for whatever they hold.
\<close>

definition Distribution_new :: "Distribution \<Rightarrow> Distribution" where
  "Distribution_new u = u\<lparr>nextstart := []\<rparr>"

definition execSingle :: "Distribution \<Rightarrow> nat \<Rightarrow> Distribution" where
  "execSingle u nwork' = Distribution_execSingle (Distribution_new u) nwork'"

definition execStatic :: "nat \<Rightarrow> Distribution \<Rightarrow> nat \<Rightarrow> nat \<Rightarrow> nat \<Rightarrow> Distribution" where
  "execStatic dn u nwork' nthreads' chunksize' =
     Distribution_execStatic dn (Distribution_new u) nwork' nthreads' chunksize'"

definition execDynamic :: "nat \<Rightarrow> Distribution \<Rightarrow> nat \<Rightarrow> nat \<Rightarrow> nat \<Rightarrow> Distribution" where
  "execDynamic dn u nwork' nthreads' chunksize_min' =
     Distribution_execDynamic dn (Distribution_new u) nwork' nthreads' chunksize_min' 0"

definition execGuided :: "nat \<Rightarrow> Distribution \<Rightarrow> nat \<Rightarrow> nat \<Rightarrow> nat \<Rightarrow> real \<Rightarrow> Distribution" where
  "execGuided dn u nwork' nthreads' chunksize_min' fact_max' =
     Distribution_execDynamic dn (Distribution_new u) nwork' nthreads' chunksize_min' fact_max'"

definition execParallel :: "nat \<Rightarrow> Distribution \<Rightarrow> nat \<Rightarrow> Distribution" where
  "execParallel dn u nthreads' = Distribution_execParallel dn (Distribution_new u) nthreads'"

text \<open>
  A run of the workers: the calls of \<open>getNext\<close> in the order in which they take
  effect, each named by the calling worker. \<open>calls\<close> returns the ranges handed
  out, in that order, and the final state. In the \<^verbatim>\<open>STATIC\<close> case a call reads
  and writes only the caller's own entry of \<^verbatim>\<open>nextstart\<close>; in the \<^verbatim>\<open>DYNAMIC\<close> case
  the mutex puts the calls in an order.
\<close>

fun calls :: "Distribution \<Rightarrow> nat list \<Rightarrow> error + Range list \<times> Distribution" where
  "calls d [] = Inr ([], d)"
| "calls d (t # ts) =
     (case getNext d t of
        Inl e \<Rightarrow> Inl e
      | Inr (r, d') \<Rightarrow>
         (case calls d' ts of
            Inl e \<Rightarrow> Inl e
          | Inr (rs, d'') \<Rightarrow> Inr (r # rs, d'')))"


section \<open>The Wigner recurrer \<^verbatim>\<open>wigner_d_risbo_openmp\<close>\<close>

text \<open>
  Modelled from the spec: the two-dimensional view \<^verbatim>\<open>mav<double,2>\<close> gives access
  by \<open>(i, j)\<close>; it is a function of the two indices here. The constructor
  allocates \<open>d\<close> and \<open>dd\<close> with shape \<open>(lmax+1) \<times> (2 lmax+1)\<close> (taken as zero-filled)
  and the table \<^verbatim>\<open>sqt[m] = sqrt(m)\<close> with \<^verbatim>\<open>2*lmax+1\<close> entries; \<open>n\<close> starts at \<open>-1\<close>.
  The driver calls \<^verbatim>\<open>recurse\<close> \<open>lmax + 1\<close> times. As long as \<open>2 lmax + 1\<close> is below
  \<open>2 ^ 64\<close> every index formed below, none larger than \<open>2 lmax\<close>, is within that
  shape and within \<^verbatim>\<open>sqt\<close>. For a larger \<open>lmax\<close> the shape wraps and the code
  leaves the arrays; the matrices of the model have no shape and do not follow
  the code there.
\<close>

type_synonym mav2 = "nat \<Rightarrow> nat \<Rightarrow> real"

definition put2 :: "mav2 \<Rightarrow> nat \<Rightarrow> nat \<Rightarrow> real \<Rightarrow> mav2" where
  "put2 a i j v = a(i := (a i)(j := v))"

text \<open>The members \<open>p\<close>, \<open>q\<close>, \<open>sqt\<close>, \<open>d\<close>, \<open>dd\<close>, \<open>n\<close> carry the prefix \<open>rec_\<close>.\<close>

record wigner =
  rec_p :: real
  rec_q :: real
  rec_sqt :: "real list"
  rec_d :: mav2
  rec_dd :: mav2
  rec_n :: int

definition wigner_d_risbo_openmp :: "nat \<Rightarrow> real \<Rightarrow> wigner" where
  "wigner_d_risbo_openmp lmax' ang =
     \<lparr>rec_p = sin (ang / 2), rec_q = cos (ang / 2),
      rec_sqt = map (\<lambda>m. sqrt (real m)) [0 ..< size_t (2 * int lmax' + 1)],
      rec_d = (\<lambda>i j. 0), rec_dd = (\<lambda>i j. 0), rec_n = - 1\<rparr>"

text \<open>
  One pass of the loop over \<open>j\<close> in \<^verbatim>\<open>recurse\<close>: it reads \<open>xd\<close> and writes \<open>xdd\<close>, row
  \<open>0\<close> first and then the rows \<open>k = 1 .. n\<close>.
\<close>

definition risbo_row0 :: "real \<Rightarrow> real \<Rightarrow> real list \<Rightarrow> nat \<Rightarrow> mav2 \<Rightarrow> mav2 \<Rightarrow> mav2" where
  "risbo_row0 p' q' sq j xd xdd =
     (let xj = 1 / real j;
          x0 = put2 xdd 0 0 (q' * xd 0 0);
          x1 = fold (\<lambda>i x. put2 x 0 i
                     (xj * sq ! j * (q' * sq ! (j - i) * xd 0 i - p' * sq ! i * xd 0 (i - 1))))
                 [1 ..< j] x0
      in put2 x1 0 j (- p' * xd 0 (j - 1)))"

definition risbo_row :: "real \<Rightarrow> real \<Rightarrow> real list \<Rightarrow> nat \<Rightarrow> mav2 \<Rightarrow> nat \<Rightarrow> mav2 \<Rightarrow> mav2" where
  "risbo_row p' q' sq j xd k xdd =
     (let xj = 1 / real j;
          t1 = xj * sq ! (j - k) * q'; t2 = xj * sq ! (j - k) * p';
          t3 = xj * sq ! k * p'; t4 = xj * sq ! k * q';
          x0 = put2 xdd k 0
                 (xj * sq ! j * (q' * sq ! (j - k) * xd k 0 + p' * sq ! k * xd (k - 1) 0));
          x1 = fold (\<lambda>i x. put2 x k i
                     (t1 * sq ! (j - i) * xd k i - t2 * sq ! i * xd k (i - 1)
                      + t3 * sq ! (j - i) * xd (k - 1) i + t4 * sq ! i * xd (k - 1) (i - 1)))
                 [1 ..< j] x0
      in put2 x1 k j (- t2 * sq ! j * xd k (j - 1) + t4 * sq ! j * xd (k - 1) (j - 1)))"

definition risbo_step :: "real \<Rightarrow> real \<Rightarrow> real list \<Rightarrow> nat \<Rightarrow> nat \<Rightarrow> mav2 \<Rightarrow> mav2 \<Rightarrow> mav2" where
  "risbo_step p' q' sq n' j xd xdd =
     fold (risbo_row p' q' sq j xd) [1 ..< n' + 1] (risbo_row0 p' q' sq j xd xdd)"

text \<open>
  \<^verbatim>\<open>recurse()\<close>: \<open>n\<close> is incremented; \<open>n = 0\<close> and \<open>n = 1\<close> are written out, and from
  \<open>n = 2\<close> on row \<open>n\<close> is padded from row \<open>n - 2\<close> with alternating sign before the two
  passes \<open>j = 2n - 1\<close> (from \<open>d\<close> into \<open>dd\<close>) and \<open>j = 2n\<close> (from \<open>dd\<close> into \<open>d\<close>).
\<close>

definition recurse :: "wigner \<Rightarrow> wigner" where
  "recurse r =
     (let r1 = r\<lparr>rec_n := rec_n r + 1\<rparr>;
          p' = rec_p r1; q' = rec_q r1; sq = rec_sqt r1 in
      if rec_n r1 = 0 then r1\<lparr>rec_d := put2 (rec_d r1) 0 0 1\<rparr>
      else if rec_n r1 = 1 then
        (let a0 = put2 (rec_d r1) 0 0 (q' * q');
             a1 = put2 a0 0 1 (- p' * q' * sq ! 2);
             a2 = put2 a1 0 2 (p' * p');
             a3 = put2 a2 1 0 (- a2 0 1);
             a4 = put2 a3 1 1 (q' * q' - p' * p');
             a5 = put2 a4 1 2 (a4 0 1)
         in r1\<lparr>rec_d := a5\<rparr>)
      else
        (let k = nat (rec_n r1);
             sign = (if odd k then - 1 else 1);
             padded = fst (fold (\<lambda>i (a, sg). (put2 a k i (sg * a (k - 2) (2 * k - 2 - i)), - sg))
                             [0 ..< 2 * k - 1] (rec_d r1, sign));
             (d', dd') = fold (\<lambda>j (a, b).
                                 if odd j then (a, risbo_step p' q' sq k j a b)
                                 else (risbo_step p' q' sq k j b a, b))
                           [2 * k - 1 ..< 2 * k + 1] (padded, rec_dd r1)
         in r1\<lparr>rec_d := d', rec_dd := dd'\<rparr>))"

section \<open>The rotation driver \<^verbatim>\<open>rotate_alm\<close>\<close>

definition polar :: "real \<Rightarrow> real \<Rightarrow> complex" where
  "polar r t = of_real r * cis t"

text \<open>
  The vectors \<^verbatim>\<open>exppsi\<close>, \<^verbatim>\<open>expphi\<close> and \<^verbatim>\<open>almtmp\<close> are lists; an access by
  \<^verbatim>\<open>operator[]\<close> outside a vector is \<open>OutOfRange\<close>.

  The job body handed to \<^verbatim>\<open>execStatic\<close>: it takes one range from the scheduler and
  adds, for every \<open>mm = 1 .. l\<close>, the contribution of \<open>a(l, mm)\<close> to \<open>almtmp[m]\<close> for
  the \<open>m\<close> of the range.
\<close>

definition rotate_job ::
  "complex Alm \<Rightarrow> nat \<Rightarrow> mav2 \<Rightarrow> complex list \<Rightarrow> Range \<Rightarrow> complex list \<Rightarrow> error + complex list" where
  "rotate_job A l dm exppsi rng almtmp =
     (case for_loop 1 (l + 1)
        (\<lambda>mm (tmp, flip).
           case Alm_get A l mm of
             Inl e \<Rightarrow> Inl e
           | Inr a \<Rightarrow>
              if \<not> mm < length exppsi then Inl OutOfRange
              else
                (let t1 = a * exppsi ! mm;
                     flip2 = odd (mm + lo rng)
                 in case for_loop (lo rng) (hi rng)
                      (\<lambda>m (tmp', flip2').
                         if \<not> m < length tmp' then Inl OutOfRange
                         else
                           (let d1 = (if flip2' then - dm (l - mm) (l - m)
                                      else dm (l - mm) (l - m));
                                d2 = (if flip then - dm (l - mm) (l + m)
                                      else dm (l - mm) (l + m));
                                f1 = d1 + d2; f2 = d1 - d2
                            in Inr (tmp'[m := tmp' ! m + Complex (Re t1 * f1) (Im t1 * f2)],
                                    \<not> flip2')))
                      (tmp, flip2) of
                      Inl e \<Rightarrow> Inl e
                    | Inr (tmp', _) \<Rightarrow> Inr (tmp', \<not> flip)))
        (almtmp, True) of
        Inl e \<Rightarrow> Inl e
      | Inr (tmp, _) \<Rightarrow> Inr tmp)"

text \<open>
  One round \<open>l\<close> of the loop for \<open>theta \<noteq> 0\<close>. The call
  \<^verbatim>\<open>execStatic(l+1, nthreads, 0, ...)\<close> has \<^verbatim>\<open>nthreads = 1\<close>, so \<^verbatim>\<open>thread_map\<close> runs the
  job on the calling thread as worker \<open>0\<close>. (\<open>l + 1\<close> does not wrap: \<open>l\<close> is at most
  \<^verbatim>\<open>lmax\<close>, and the rounds are reached only if \<^verbatim>\<open>lmax+1\<close> has not wrapped, see
  below.)
\<close>

definition rotate_round ::
  "nat \<Rightarrow> Distribution \<Rightarrow> complex list \<Rightarrow> complex list \<Rightarrow> nat
     \<Rightarrow> complex Alm \<times> complex list \<times> wigner \<Rightarrow> error + complex Alm \<times> complex list \<times> wigner" where
  "rotate_round dn u exppsi expphi l st =
     (case st of (A, almtmp, rec) \<Rightarrow>
        (let rec' = recurse rec; dm = rec_d rec' in
         case for_loop 0 (l + 1)
                (\<lambda>m tmp. case Alm_get A l 0 of
                            Inl e \<Rightarrow> Inl e
                          | Inr a \<Rightarrow>
                             if \<not> m < length tmp then Inl OutOfRange
                             else Inr (tmp[m := a * of_real (dm l (l + m))]))
                almtmp of
           Inl e \<Rightarrow> Inl e
         | Inr tmp0 \<Rightarrow>
            (case getNext (execStatic dn u (l + 1) 1 0) 0 of
               Inl e \<Rightarrow> Inl e
             | Inr (rng, _) \<Rightarrow>
                (case rotate_job A l dm exppsi rng tmp0 of
                   Inl e \<Rightarrow> Inl e
                 | Inr tmp1 \<Rightarrow>
                    (case for_loop 0 (l + 1)
                            (\<lambda>m A'. if \<not> (m < length tmp1 \<and> m < length expphi)
                                     then Inl OutOfRange
                                     else Alm_put A' l m (tmp1 ! m * expphi ! m)) A of
                       Inl e \<Rightarrow> Inl e
                     | Inr A' \<Rightarrow> Inr (A', tmp1, rec'))))))"

text \<open>
  \<^verbatim>\<open>rotate_alm(alm, psi, theta, phi)\<close>. Beside the store the model returns the
  recurrer as it stands at the end, or \<open>None\<close> when none was constructed. The
  three vectors have \<^verbatim>\<open>lmax+1\<close> entries, a sum in \<^verbatim>\<open>size_t\<close>; the loop that fills
  \<^verbatim>\<open>exppsi\<close> and \<^verbatim>\<open>expphi\<close> leaves them at once when that sum has wrapped to \<open>0\<close>.
\<close>

definition rotate_alm ::
  "nat \<Rightarrow> Distribution \<Rightarrow> complex Alm \<Rightarrow> real \<Rightarrow> real \<Rightarrow> real
     \<Rightarrow> error + complex Alm \<times> wigner option" where
  "rotate_alm dn u A psi theta phi =
     (let lmax' = Lmax A in
      if \<not> complete A then Inl (ShapeError ''rotate_alm: need complete A_lm set'')
      else if theta \<noteq> 0 then
        (case for_loop 0 (lmax' + 1)
                (\<lambda>m (ep, eh).
                   if \<not> (m < length ep \<and> m < length eh) then Inl OutOfRange
                   else Inr (ep[m := polar 1 (- psi * real m)],
                             eh[m := polar 1 (- phi * real m)]))
                (replicate (size_t (int lmax' + 1)) 0, replicate (size_t (int lmax' + 1)) 0) of
           Inl e \<Rightarrow> Inl e
         | Inr (exppsi, expphi) \<Rightarrow>
            (let almtmp = replicate (size_t (int lmax' + 1)) 0;
                 rec = wigner_d_risbo_openmp lmax' theta
             in case for_loop 0 (lmax' + 1) (rotate_round dn u exppsi expphi)
                       (A, almtmp, rec) of
                  Inl e \<Rightarrow> Inl e
                | Inr (A', _, rec') \<Rightarrow> Inr (A', Some rec')))
      else
        (case for_loop 0 (lmax' + 1)
                (\<lambda>m A1.
                   let ang = polar 1 (- (psi + phi) * real m)
                   in for_loop m (lmax' + 1)
                        (\<lambda>l A2. case Alm_get A2 l m of
                                   Inl e \<Rightarrow> Inl e
                                 | Inr v \<Rightarrow> Alm_put A2 l m (v * ang))
                        A1)
                A of
           Inl e \<Rightarrow> Inl e
         | Inr A' \<Rightarrow> Inr (A', None)))"


section \<open>Notions used in the statements\<close>

text \<open>
  \<open>coeff_count L M\<close> is the number of coefficients \<open>a(l, m)\<close> with \<open>m \<le> M\<close> and
  \<open>m \<le> l \<le> L\<close>, as a natural number. \<open>no_wrap L M\<close>: the product \<open>(M+1)(M+2)\<close> and
  the number of coefficients are below \<open>2 ^ 64\<close>, so that \<^verbatim>\<open>Num_Alms(L, M)\<close> is
  computed without wrap-around.
\<close>

definition coeff_count :: "nat \<Rightarrow> nat \<Rightarrow> nat" where
  "coeff_count L M = ((M + 1) * (M + 2)) div 2 + (M + 1) * (L - M)"

definition no_wrap :: "nat \<Rightarrow> nat \<Rightarrow> bool" where
  "no_wrap L M \<longleftrightarrow> (M + 1) * (M + 2) < 2 ^ 64 \<and> coeff_count L M < 2 ^ 64"

text \<open>
  \<open>colstart L m\<close> is the number of slots taken by the columns before \<open>m\<close> when the
  columns \<open>0, 1, \<dots>\<close> of lengths \<open>L + 1, L, \<dots>\<close> are laid out one after the other.
\<close>

definition colstart :: "nat \<Rightarrow> nat \<Rightarrow> int" where
  "colstart L m = (\<Sum>j<m. int L - int j + 1)"

text \<open>
  \<open>static_chunk C n W t k\<close> is the range that static scheduling with chunk size
  \<open>C\<close>, \<open>n\<close> workers and \<open>W\<close> work items owes to worker \<open>t\<close> on its call number \<open>k\<close>
  (counted from \<open>0\<close>): the chunk with number \<open>t + k n\<close>, cut off at \<open>W\<close>, or the empty
  range when that chunk starts at or beyond \<open>W\<close>.
\<close>

definition static_chunk :: "nat \<Rightarrow> nat \<Rightarrow> nat \<Rightarrow> nat \<Rightarrow> nat \<Rightarrow> Range" where
  "static_chunk C n W t k =
     (if (t + k * n) * C < W
      then \<lparr>lo = (t + k * n) * C, hi = min ((t + k * n) * C + C) W\<rparr>
      else Range_empty)"





text \<open>
  \<open>guided_quot f rem n\<close> is the quotient \<^verbatim>\<open>(fact_max_*double(rem))/double(nthreads_)\<close>
  as guided scheduling computes it in \<^verbatim>\<open>double\<close>, \<open>dyn_quot S\<close> its value in state
  \<open>S\<close>, and \<open>dyn_size S\<close> the chunk size taken in state \<open>S\<close>:
  \<open>min(rem, max(chunk, \<lfloor>quotient\<rfloor>))\<close> with \<open>rem\<close> the work left.
\<close>

definition guided_quot :: "real \<Rightarrow> nat \<Rightarrow> nat \<Rightarrow> real" where
  "guided_quot f rem n = to_double (to_double (f * to_double (real rem)) / to_double (real n))"

definition dyn_quot :: "Distribution \<Rightarrow> real" where
  "dyn_quot S = guided_quot (fact_max S) (nwork S - cur S) (nthreads S)"

definition dyn_size :: "Distribution \<Rightarrow> nat" where
  "dyn_size S = min (nwork S - cur S) (max (chunksize S) (nat \<lfloor>dyn_quot S\<rfloor>))"

text \<open>
  The invariant of a \<^verbatim>\<open>STATIC\<close> run in which worker \<open>t\<close> has made \<open>c t\<close> calls so far:
  its entry of \<^verbatim>\<open>nextstart\<close> is the start of one of its chunks, and of an earlier
  one than number \<open>c t\<close> only if that one already lies beyond the work.
\<close>

definition static_inv ::
  "nat \<Rightarrow> nat \<Rightarrow> nat \<Rightarrow> (nat \<Rightarrow> nat) \<Rightarrow> Distribution \<Rightarrow> bool" where
  "static_inv C n W c D \<longleftrightarrow>
     mode D = STATIC \<and> nthreads D = n \<and> nwork D = W \<and> chunksize D = C \<and>
     length (nextstart D) = n \<and>
     (\<forall>t<n. \<exists>k\<le>c t. nextstart D ! t = (t + k * n) * C \<and>
                      (k < c t \<longrightarrow> W \<le> (t + k * n) * C))"

text \<open>
  \<open>dense_store L M A\<close>: the store \<open>A\<close> has the layout that the dense constructor
  builds for \<open>L\<close> and \<open>M\<close>, the number of coefficients is below \<open>2 ^ 64\<close>, and the
  buffer has that many slots. \<open>slot L l m\<close> is the position of \<open>a(l, m)\<close> in that
  layout.
\<close>

definition dense_store :: "nat \<Rightarrow> nat \<Rightarrow> 'a Alm \<Rightarrow> bool" where
  "dense_store L M A \<longleftrightarrow>
     M \<le> L \<and> lmax A = L \<and> mval A = [0 ..< Suc M] \<and> length (mstart A) = Suc M \<and>
     (\<forall>m\<le>M. mstart A ! m = ptrdiff_t (colstart L m - int m)) \<and>
     length (alm A) = coeff_count L M \<and> coeff_count L M < 2 ^ 64"

definition slot :: "nat \<Rightarrow> nat \<Rightarrow> nat \<Rightarrow> nat" where
  "slot L l m = nat (colstart L m - int m + int l)"

text \<open>
  The rotated coefficients, as sums. \<open>rot_term dm t l mm m\<close> is what the
  coefficient \<open>a(l, mm)\<close>, \<open>mm \<ge> 1\<close>, already multiplied by \<open>exp(-i psi mm)\<close> to give
  \<open>t\<close>, contributes to the new \<open>a(l, m)\<close>, with \<open>dm\<close> the Wigner matrix of degree
  \<open>l\<close>; \<open>rot_sum dm psi a l m\<close> adds the contribution of \<open>a(l, 0)\<close> and those of
  \<open>mm = 1 .. l\<close>, where \<open>a mm\<close> stands for \<open>a(l, mm)\<close>; the new \<open>a(l, m)\<close> is this sum
  times \<open>exp(-i phi m)\<close>. \<open>wigner_d L theta l\<close> is the matrix that the recurrer for
  \<open>L\<close> and \<open>theta\<close> returns from its call number \<open>l + 1\<close>.
\<close>

definition rot_term :: "mav2 \<Rightarrow> complex \<Rightarrow> nat \<Rightarrow> nat \<Rightarrow> nat \<Rightarrow> complex" where
  "rot_term dm t l mm m =
     (let d1 = (if odd (mm + m) then - dm (l - mm) (l - m) else dm (l - mm) (l - m));
          d2 = (if odd mm then - dm (l - mm) (l + m) else dm (l - mm) (l + m))
      in Complex (Re t * (d1 + d2)) (Im t * (d1 - d2)))"

definition rot_sum :: "mav2 \<Rightarrow> real \<Rightarrow> (nat \<Rightarrow> complex) \<Rightarrow> nat \<Rightarrow> nat \<Rightarrow> complex" where
  "rot_sum dm psi a l m =
     a 0 * of_real (dm l (l + m))
     + (\<Sum>mm = 1 ..< l + 1. rot_term dm (a mm * polar 1 (- psi * real mm)) l mm m)"

definition wigner_d :: "nat \<Rightarrow> real \<Rightarrow> nat \<Rightarrow> mav2" where
  "wigner_d L theta l = rec_d ((recurse ^^ (l + 1)) (wigner_d_risbo_openmp L theta))"

section \<open>Machine integers\<close>

lemma ptrdiff_t_mod: "ptrdiff_t i mod 2 ^ 64 = i mod 2 ^ 64"
proof -
  have "ptrdiff_t i mod 2 ^ 64 = ((i + 2 ^ 63) mod 2 ^ 64 - 2 ^ 63) mod 2 ^ 64"
    by (simp only: ptrdiff_t_def)
  also have "\<dots> = (i + 2 ^ 63 - 2 ^ 63) mod 2 ^ 64"
    by (rule mod_diff_left_eq)
  finally show ?thesis by simp
qed

lemma ptrdiff_t_cong: "x mod 2 ^ 64 = y mod 2 ^ 64 \<Longrightarrow> ptrdiff_t x = ptrdiff_t y"
proof -
  assume a: "x mod 2 ^ 64 = y mod (2 ^ 64 :: int)"
  have "(x + 2 ^ 63) mod 2 ^ 64 = (x mod 2 ^ 64 + 2 ^ 63) mod (2 ^ 64 :: int)"
    by (rule mod_add_left_eq[symmetric])
  also have "\<dots> = (y mod 2 ^ 64 + 2 ^ 63) mod 2 ^ 64" by (simp only: a)
  also have "\<dots> = (y + 2 ^ 63) mod 2 ^ 64" by (rule mod_add_left_eq)
  finally show ?thesis by (simp only: ptrdiff_t_def)
qed

lemma ptrdiff_t_add: "ptrdiff_t (ptrdiff_t x + y) = ptrdiff_t (x + y)"
proof (rule ptrdiff_t_cong)
  have "(ptrdiff_t x + y) mod 2 ^ 64 = (ptrdiff_t x mod 2 ^ 64 + y) mod 2 ^ 64"
    by (rule mod_add_left_eq[symmetric])
  also have "\<dots> = (x mod 2 ^ 64 + y) mod 2 ^ 64" by (simp only: ptrdiff_t_mod)
  also have "\<dots> = (x + y) mod 2 ^ 64" by (rule mod_add_left_eq)
  finally show "(ptrdiff_t x + y) mod 2 ^ 64 = (x + y) mod 2 ^ 64" .
qed

lemma ptrdiff_t_diff: "ptrdiff_t (ptrdiff_t x - y) = ptrdiff_t (x - y)"
  using ptrdiff_t_add[of x "- y"] by simp

lemma size_t_ptrdiff_t: "size_t (ptrdiff_t i) = size_t i"
  by (simp only: size_t_def ptrdiff_t_mod)

lemma size_t_nat: "0 \<le> i \<Longrightarrow> i < 2 ^ 64 \<Longrightarrow> size_t i = nat i"
  by (simp add: size_t_def)

lemma size_t_int: "n < 2 ^ 64 \<Longrightarrow> size_t (int n) = n"
  by (simp add: size_t_def)

lemma size_t_add: "(size_t x + l) mod 2 ^ 64 = size_t (x + int l)"
proof -
  have "int ((size_t x + l) mod 2 ^ 64) = (x mod 2 ^ 64 + int l) mod 2 ^ 64"
    by (simp add: size_t_def zmod_int)
  also have "\<dots> = (x + int l) mod 2 ^ 64" by (rule mod_add_left_eq)
  finally have "int ((size_t x + l) mod 2 ^ 64) = int (size_t (x + int l))"
    by (simp add: size_t_def)
  then show ?thesis by (rule int_int_eq[THEN iffD1])
qed

lemma replicate_two: "replicate 2 x = [x, x]"
  by (simp add: numeral_2_eq_2)

section \<open>The dense layout\<close>

lemma colstart_0: "colstart L 0 = 0"
  by (simp add: colstart_def)

lemma colstart_Suc: "colstart L (Suc m) = colstart L m + (int L - int m + 1)"
  by (simp add: colstart_def)

lemma colstart_mono_step: "m \<le> L \<Longrightarrow> colstart L m < colstart L (Suc m)"
  by (simp add: colstart_Suc)

lemma colstart_mono: "m \<le> m' \<Longrightarrow> m' \<le> Suc L \<Longrightarrow> colstart L m \<le> colstart L m'"
proof (induction m')
  case 0
  then show ?case by simp
next
  case (Suc k)
  show ?case
  proof (cases "m = Suc k")
    case True
    then show ?thesis by simp
  next
    case False
    with Suc.prems have "m \<le> k" "k \<le> L" by simp_all
    with Suc.IH have "colstart L m \<le> colstart L k" by simp
    also have "\<dots> < colstart L (Suc k)" using \<open>k \<le> L\<close> by (rule colstart_mono_step)
    finally show ?thesis by simp
  qed
qed

lemma colstart_total:
  "M \<le> L \<Longrightarrow> colstart L (Suc M) = int (((M + 1) * (M + 2)) div 2 + (M + 1) * (L - M))"
proof (induction M)
  case 0
  then show ?case by (simp add: colstart_Suc colstart_0)
next
  case (Suc M)
  then have IH: "colstart L (Suc M) = int (((M + 1) * (M + 2)) div 2 + (M + 1) * (L - M))"
    by simp
  have e: "((Suc M + 1) * (Suc M + 2)) div 2 = ((M + 1) * (M + 2)) div 2 + (M + 2)"
  proof -
    have "(Suc M + 1) * (Suc M + 2) = (M + 1) * (M + 2) + 2 * (M + 2)"
      by (simp add: algebra_simps)
    then show ?thesis by simp
  qed
  from Suc.prems obtain r where r: "L = Suc M + r" using le_Suc_ex by blast
  show ?case
    unfolding colstart_Suc[of L "Suc M"] IH e
    using r by (simp add: algebra_simps)
qed

text \<open>
  What the loop of the dense constructor leaves in the two vectors, wrap-around
  included: entry \<open>k\<close> of \<^verbatim>\<open>mstart\<close> is the exact offset reduced to a \<^verbatim>\<open>ptrdiff_t\<close>.
\<close>

lemma dense_loop_spec:
  "length mv = Suc mmx \<Longrightarrow> length ms = Suc mmx \<Longrightarrow> m \<le> Suc mmx \<Longrightarrow>
   \<exists>mv' ms'. dense_loop lmx mmx m idx (mv, ms) = Inr (mv', ms') \<and>
     length mv' = Suc mmx \<and> length ms' = Suc mmx \<and>
     (\<forall>k<m. mv' ! k = mv ! k \<and> ms' ! k = ms ! k) \<and>
     (\<forall>k. m \<le> k \<and> k \<le> mmx \<longrightarrow>
        mv' ! k = k \<and>
        ms' ! k = ptrdiff_t (idx + (\<Sum>j = m..<k. int lmx - int j + 1) - int k))"
proof (induction lmx mmx m idx "(mv, ms)" arbitrary: mv ms rule: dense_loop.induct)
  case (1 lmx mmx m idx mv ms)
  note eq = dense_loop.simps[of lmx mmx m idx mv ms]
  show ?case
  proof (cases "m \<le> mmx")
    case False
    with "1.prems" show ?thesis unfolding eq by auto
  next
    case True
    let ?mv = "mv[m := m]" and ?ms = "ms[m := ptrdiff_t (idx - int m)]"
    let ?idx = "ptrdiff_t (idx + (int lmx - int m + 1))"
    have inr: "m < length mv \<and> m < length ms" using True "1.prems"(1,2) by simp
    have run: "dense_loop lmx mmx m idx (mv, ms) = dense_loop lmx mmx (Suc m) ?idx (?mv, ?ms)"
      unfolding eq using True inr by simp
    have "\<exists>mv' ms'. dense_loop lmx mmx (Suc m) ?idx (?mv, ?ms) = Inr (mv', ms') \<and>
     length mv' = Suc mmx \<and> length ms' = Suc mmx \<and>
     (\<forall>k<Suc m. mv' ! k = ?mv ! k \<and> ms' ! k = ?ms ! k) \<and>
     (\<forall>k. Suc m \<le> k \<and> k \<le> mmx \<longrightarrow>
        mv' ! k = k \<and>
        ms' ! k = ptrdiff_t (?idx + (\<Sum>j = Suc m..<k. int lmx - int j + 1) - int k))"
      using "1.prems"(1,2) True by (intro "1.hyps"[OF True inr]) simp_all
    then obtain mv' ms' where r: "dense_loop lmx mmx (Suc m) ?idx (?mv, ?ms) = Inr (mv', ms')"
      and len: "length mv' = Suc mmx" "length ms' = Suc mmx"
      and lowr: "\<forall>k<Suc m. mv' ! k = ?mv ! k \<and> ms' ! k = ?ms ! k"
      and upr: "\<forall>k. Suc m \<le> k \<and> k \<le> mmx \<longrightarrow>
        mv' ! k = k \<and>
        ms' ! k = ptrdiff_t (?idx + (\<Sum>j = Suc m..<k. int lmx - int j + 1) - int k)"
      by blast
    have a: "\<forall>k<m. mv' ! k = mv ! k \<and> ms' ! k = ms ! k"
      using lowr by (auto simp: nth_list_update)
    have b: "mv' ! m = m \<and> ms' ! m = ptrdiff_t (idx - int m)"
      using lowr inr by (auto simp: nth_list_update)
    have c: "mv' ! k = k \<and>
             ms' ! k = ptrdiff_t (idx + (\<Sum>j = m..<k. int lmx - int j + 1) - int k)"
      if "m \<le> k" "k \<le> mmx" for k
    proof (cases "k = m")
      case True
      with b show ?thesis by simp
    next
      case False
      with that have k: "Suc m \<le> k" by simp
      have "ptrdiff_t (?idx + (\<Sum>j = Suc m..<k. int lmx - int j + 1) - int k)
            = ptrdiff_t (?idx + ((\<Sum>j = Suc m..<k. int lmx - int j + 1) - int k))"
        by (simp add: algebra_simps)
      also have "\<dots> = ptrdiff_t (idx + (int lmx - int m + 1)
                          + ((\<Sum>j = Suc m..<k. int lmx - int j + 1) - int k))"
        by (rule ptrdiff_t_add)
      also have "\<dots> = ptrdiff_t (idx + (\<Sum>j = m..<k. int lmx - int j + 1) - int k)"
        using k by (simp add: sum.atLeast_Suc_lessThan algebra_simps)
      finally show ?thesis using upr k that by simp
    qed
    from r len a c show ?thesis unfolding run by blast
  qed
qed

lemma dense_loop_fits:
  "dense_loop lmx mmx m idx (mv, ms) = Inr r \<Longrightarrow> m \<le> mmx \<Longrightarrow> mmx < length mv"
proof (induction lmx mmx m idx "(mv, ms)" arbitrary: mv ms rule: dense_loop.induct)
  case (1 lmx mmx m idx mv ms)
  note eq = dense_loop.simps[of lmx mmx m idx mv ms]
  from "1.prems" have inr: "m < length mv \<and> m < length ms"
    unfolding eq by (simp split: if_splits)
  with "1.prems" have run:
    "dense_loop lmx mmx (Suc m) (ptrdiff_t (idx + (int lmx - int m + 1)))
       (mv[m := m], ms[m := ptrdiff_t (idx - int m)]) = Inr r"
    unfolding eq by simp
  show ?case
  proof (cases "Suc m \<le> mmx")
    case True
    from "1.hyps"[OF "1.prems"(2) inr run True] show ?thesis by simp
  next
    case False
    with "1.prems"(2) have "m = mmx" by simp
    with inr show ?thesis by simp
  qed
qed

text \<open>The dense constructor, for every \<open>M\<close> but the largest \<^verbatim>\<open>size_t\<close>.\<close>

lemma dense_base:
  assumes "M \<le> L" "M + 1 < 2 ^ 64"
  shows "\<exists>b n. Alm_Base_lmax_mmax L M = Inr b \<and> Num_Alms L M = Inr n \<and> lmax b = L
           \<and> arrsize b = n
           \<and> mval b = [0 ..< Suc M] \<and> length (mstart b) = Suc M
           \<and> (\<forall>m\<le>M. mstart b ! m = ptrdiff_t (colstart L m - int m))"
proof -
  have sz: "size_t (int M + 1) = Suc M"
    using assms(2) size_t_int[of "M + 1"] by (simp add: add.commute)
  from dense_loop_spec[of "replicate (Suc M) 0" M "replicate (Suc M) 0" 0 L 0]
  obtain mv ms where run:
    "dense_loop L M 0 0 (replicate (Suc M) 0, replicate (Suc M) 0) = Inr (mv, ms)"
    and sp: "length mv = Suc M" "length ms = Suc M"
     "\<forall>k. 0 \<le> k \<and> k \<le> M \<longrightarrow>
        mv ! k = k \<and> ms ! k = ptrdiff_t (0 + (\<Sum>j = 0..<k. int L - int j + 1) - int k)"
    by auto
  have mv: "mv = [0 ..< Suc M]"
    by (rule nth_equalityI) (use sp in \<open>auto simp: nth_upt simp del: upt_Suc\<close>)
  have ms: "\<forall>m\<le>M. ms ! m = ptrdiff_t (colstart L m - int m)"
    using sp(3) by (simp add: colstart_def atLeast0LessThan)
  show ?thesis
    using assms(1) run sp(2) mv ms unfolding Alm_Base_lmax_mmax_def sz
    by (simp add: Num_Alms_def)
qed

lemma Num_Alms_exact:
  assumes "M \<le> L" "no_wrap L M"
  shows "Num_Alms L M = Inr (((M + 1) * (M + 2)) div 2 + (M + 1) * (L - M))"
proof -
  let ?N = "((M + 1) * (M + 2)) div 2 + (M + 1) * (L - M)"
  from assms(2) have a: "(M + 1) * (M + 2) < 2 ^ 64" and n: "?N < 2 ^ 64"
    by (simp_all add: no_wrap_def coeff_count_def)
  have "(M + 1) * (L - M) \<le> ?N" by simp
  then have b: "(M + 1) * (L - M) < 2 ^ 64" using n by (rule le_less_trans)
  have "Num_Alms L M = Inr (((((M + 1) * (M + 2)) mod 2 ^ 64) div 2
                             + ((M + 1) * (L - M)) mod 2 ^ 64) mod 2 ^ 64)"
    using assms(1) by (simp only: Num_Alms_def if_True)
  also have "\<dots> = Inr ?N"
    by (simp only: mod_less[OF a] mod_less[OF b] mod_less[OF n])
  finally show ?thesis .
qed

lemma no_wrap_Suc: "no_wrap L M \<Longrightarrow> M + 1 < 2 ^ 64"
proof -
  assume "no_wrap L M"
  then have a: "(M + 1) * (M + 2) < 2 ^ 64" by (simp add: no_wrap_def)
  have "M + 1 \<le> (M + 1) * (M + 2)" by simp
  then show ?thesis using a by (rule le_less_trans)
qed

lemma dense_slot_range:
  assumes "m \<le> M" "M \<le> L" "m \<le> l" "l \<le> L"
  shows "colstart L m \<le> colstart L m - int m + int l"
    and "colstart L m - int m + int l < colstart L (Suc m)"
    and "0 \<le> colstart L m"
    and "colstart L (Suc m) \<le> colstart L (Suc M)"
proof -
  show "colstart L m \<le> colstart L m - int m + int l" using assms by simp
  show "colstart L m - int m + int l < colstart L (Suc m)"
    using assms by (simp add: colstart_Suc)
  show "0 \<le> colstart L m"
    using colstart_mono[of 0 m L] assms by (simp add: colstart_0)
  show "colstart L (Suc m) \<le> colstart L (Suc M)"
    using assms by (intro colstart_mono) simp_all
qed

lemma dense_slot_inj:
  assumes "M \<le> L" "m \<le> M" "m \<le> l" "l \<le> L" "m' \<le> M" "m' \<le> l'" "l' \<le> L"
    and eq: "colstart L m - int m + int l = colstart L m' - int m' + int l'"
  shows "l = l' \<and> m = m'"
proof -
  have less: False
    if "a < c" "a \<le> M" "a \<le> x" "x \<le> L" "c \<le> M" "c \<le> y" "y \<le> L"
      "colstart L a - int a + int x = colstart L c - int c + int y" for a c x y
  proof -
    have "colstart L a - int a + int x < colstart L (Suc a)"
      using that assms(1) by (intro dense_slot_range(2)[where M = M]) simp_all
    also have "colstart L (Suc a) \<le> colstart L c"
      using that assms(1) by (intro colstart_mono) simp_all
    also have "colstart L c \<le> colstart L c - int c + int y"
      using that by simp
    finally show False using that by simp
  qed
  have "m = m'"
  proof (rule ccontr)
    assume "m \<noteq> m'"
    then consider "m < m'" | "m' < m" by linarith
    then show False
    proof cases
      case 1
      then show False using less[of m m' l l'] assms by simp
    next
      case 2
      then show False using less[of m' m l' l] assms by simp
    qed
  qed
  with eq show ?thesis by simp
qed

lemma slot_bound:
  assumes "M \<le> L" "m \<le> M" "m \<le> l" "l \<le> L"
  shows "0 \<le> colstart L m - int m + int l"
    and "slot L l m < ((M + 1) * (M + 2)) div 2 + (M + 1) * (L - M)"
proof -
  note r = dense_slot_range[OF assms(2) assms(1) assms(3,4)]
  show nn: "0 \<le> colstart L m - int m + int l" using r(1) r(3) by linarith
  have "colstart L m - int m + int l < int (((M + 1) * (M + 2)) div 2 + (M + 1) * (L - M))"
    using r(2) r(4) colstart_total[OF assms(1)] by linarith
  with nn show "slot L l m < ((M + 1) * (M + 2)) div 2 + (M + 1) * (L - M)"
    unfolding slot_def by linarith
qed

lemma slot_inj:
  assumes "M \<le> L" "m \<le> M" "m \<le> l" "l \<le> L" "m' \<le> M" "m' \<le> l'" "l' \<le> L"
    and "slot L l m = slot L l' m'"
  shows "l = l' \<and> m = m'"
proof -
  have "colstart L m - int m + int l = colstart L m' - int m' + int l'"
    using slot_bound(1)[OF assms(1-4)] slot_bound(1)[OF assms(1) assms(5-7)] assms(8)
    unfolding slot_def by linarith
  then show ?thesis by (rule dense_slot_inj[OF assms(1-7)])
qed

text \<open>
  The index of \<open>a(l, m)\<close> in a dense layout: the exact position reduced modulo
  \<open>2 ^ 64\<close>, which is the position itself when the number of coefficients is
  below \<open>2 ^ 64\<close>.
\<close>

lemma dense_index_wrapped:
  assumes "length (mstart b) = Suc M" "\<forall>m\<le>M. mstart b ! m = ptrdiff_t (colstart L m - int m)"
    and "m \<le> M"
  shows "index b l m = Inr (size_t (colstart L m - int m + int l))"
proof -
  have "index b l m = Inr ((size_t (ptrdiff_t (colstart L m - int m)) + l) mod 2 ^ 64)"
    using assms by (simp add: index_def index_l0_def)
  then show ?thesis by (simp only: size_t_ptrdiff_t size_t_add)
qed

lemma dense_index:
  assumes "length (mstart b) = Suc M" "\<forall>m\<le>M. mstart b ! m = ptrdiff_t (colstart L m - int m)"
    and "((M + 1) * (M + 2)) div 2 + (M + 1) * (L - M) < 2 ^ 64"
    and "M \<le> L" "m \<le> M" "m \<le> l" "l \<le> L"
  shows "index b l m = Inr (slot L l m)"
proof -
  note sb = slot_bound[OF assms(4-7)]
  have e: "colstart L m - int m + int l = int (slot L l m)" using sb(1) by (simp add: slot_def)
  have "slot L l m < 2 ^ 64" using sb(2) assms(3) by (rule less_trans)
  then have "size_t (int (slot L l m)) = slot L l m" by (rule size_t_int)
  with dense_index_wrapped[OF assms(1,2,5), of l] show ?thesis by (simp only: e)
qed

text \<open>
  Claim C3 says that for every \<open>L\<close> and \<open>M \<le> L\<close> the value of \<^verbatim>\<open>Num_Alms(L, M)\<close> is
  \<open>(M+1)(M+2)/2 + (M+1)(L-M)\<close> and every index of the dense store lies below it.
  \<^verbatim>\<open>Num_Alms\<close> computes in \<^verbatim>\<open>size_t\<close>. For \<open>L = 2 ^ 63\<close> and \<open>M = 1\<close> the formula gives
  \<open>2 ^ 64 + 1\<close>; the code returns \<open>1\<close>, and the dense constructor, whose two
  vectors have two entries each, puts \<open>a(2 ^ 63, 0)\<close> at index \<open>2 ^ 63\<close>, which is
  not below \<open>1\<close>.
\<close>

theorem C3_count_wraps:
  "(1 :: nat) \<le> 2 ^ 63 \<and>
   Num_Alms (2 ^ 63) 1 = Inr 1 \<and>
   ((1 + 1) * (1 + 2)) div 2 + (1 + 1) * (2 ^ 63 - 1) = (2 ^ 64 + 1 :: nat) \<and>
   Alm_Base_lmax_mmax (2 ^ 63) 1
     = Inr \<lparr>lmax = 2 ^ 63, arrsize = 1, mval = [0, 1], mstart = [0, - (2 ^ 63)]\<rparr> \<and>
   index \<lparr>lmax = 2 ^ 63, arrsize = 1, mval = [0, 1], mstart = [0, - (2 ^ 63)]\<rparr> (2 ^ 63) 0
     = Inr (2 ^ 63) \<and>
   \<not> (2 ^ 63 :: nat) < 1"
  by (simp add: Num_Alms_def Alm_Base_lmax_mmax_def dense_loop.simps size_t_def ptrdiff_t_def
        index_def index_l0_def replicate_two)

text \<open>
  Claim C3, amended. Let \<open>M \<le> L\<close> be such that \<open>(M+1)(M+2)\<close> and
  \<open>(M+1)(M+2)/2 + (M+1)(L-M)\<close> are below \<open>2 ^ 64\<close>. Then \<open>Num_Alms L M\<close> is the
  latter number; in the store built by the dense constructor every \<open>index l m\<close>
  with \<open>m \<le> M\<close> and \<open>m \<le> l \<le> L\<close> is a slot below that number, and two different
  such pairs never get the same slot.
\<close>

theorem C3_dense_layout:
  assumes "M \<le> L"
    and "(M + 1) * (M + 2) < 2 ^ 64"
    and "((M + 1) * (M + 2)) div 2 + (M + 1) * (L - M) < 2 ^ 64"
  shows "Num_Alms L M = Inr (((M + 1) * (M + 2)) div 2 + (M + 1) * (L - M)) \<and>
    (\<exists>b. Alm_Base_lmax_mmax L M = Inr b \<and>
       n_entries b = ((M + 1) * (M + 2)) div 2 + (M + 1) * (L - M) \<and>
       (\<forall>m l. m \<le> M \<and> m \<le> l \<and> l \<le> L \<longrightarrow>
          (\<exists>i. index b l m = Inr i \<and>
               i < ((M + 1) * (M + 2)) div 2 + (M + 1) * (L - M))) \<and>
       (\<forall>m l m' l'. m \<le> M \<and> m \<le> l \<and> l \<le> L \<and> m' \<le> M \<and> m' \<le> l' \<and> l' \<le> L \<and>
          index b l m = index b l' m' \<longrightarrow> l = l' \<and> m = m'))"
proof -
  let ?N = "((M + 1) * (M + 2)) div 2 + (M + 1) * (L - M)"
  have nw: "no_wrap L M" using assms(2,3) by (simp add: no_wrap_def coeff_count_def)
  have num: "Num_Alms L M = Inr ?N" using assms(1) nw by (rule Num_Alms_exact)
  from dense_base[OF assms(1) no_wrap_Suc[OF nw]] num obtain b where b:
    "Alm_Base_lmax_mmax L M = Inr b" "lmax b = L" "arrsize b = ?N"
    "length (mstart b) = Suc M" "\<forall>m\<le>M. mstart b ! m = ptrdiff_t (colstart L m - int m)"
    by auto
  have idx: "index b l m = Inr (slot L l m)" if "m \<le> M" "m \<le> l" "l \<le> L" for l m
    using b(4,5) assms(3,1) that by (rule dense_index)
  have bound: "\<exists>i. index b l m = Inr i \<and> i < ?N"
    if "m \<le> M" "m \<le> l" "l \<le> L" for l m
    using idx[OF that] slot_bound(2)[OF assms(1) that] by simp
  have inj: "l = l' \<and> m = m'"
    if "m \<le> M" "m \<le> l" "l \<le> L" "m' \<le> M" "m' \<le> l'" "l' \<le> L" "index b l m = index b l' m'"
    for l m l' m'
  proof -
    from that(7) have "slot L l m = slot L l' m'"
      unfolding idx[OF that(1-3)] idx[OF that(4-6)] by simp
    then show ?thesis by (rule slot_inj[OF assms(1) that(1-6)])
  qed
  have "n_entries b = ?N" using b(3) by (simp add: n_entries_def)
  then show ?thesis using num b(1) bound inj by blast
qed

theorem C3_dense_layout_witness:
  "(1::nat) \<le> 2 \<and> ((1::nat) + 1) * (1 + 2) < 2 ^ 64 \<and>
   (((1::nat) + 1) * (1 + 2)) div 2 + (1 + 1) * (2 - 1) < 2 ^ 64 \<and>
   Num_Alms 2 1 = Inr 5 \<and>
   (\<exists>b. Alm_Base_lmax_mmax 2 1 = Inr b \<and> n_entries b = 5 \<and>
      (\<exists>i. index b 2 1 = Inr i \<and> i < 5) \<and>
      index b 2 1 \<noteq> index b 2 0)"
proof -
  have h: "(1::nat) \<le> 2" by simp
  have h2: "((1::nat) + 1) * (1 + 2) < 2 ^ 64" by simp
  have h3: "(((1::nat) + 1) * (1 + 2)) div 2 + (1 + 1) * (2 - 1) < 2 ^ 64" by simp
  note th = C3_dense_layout[OF h h2 h3]
  have five: "(((1::nat) + 1) * (1 + 2)) div 2 + (1 + 1) * (2 - 1) = 5" by simp
  from th[unfolded five] obtain b where b: "Alm_Base_lmax_mmax 2 1 = Inr b"
    "n_entries b = 5"
    "\<forall>m l. m \<le> 1 \<and> m \<le> l \<and> l \<le> 2 \<longrightarrow> (\<exists>i. index b l m = Inr i \<and> i < 5)"
    "\<forall>m l m' l'. m \<le> 1 \<and> m \<le> l \<and> l \<le> 2 \<and> m' \<le> 1 \<and> m' \<le> l' \<and> l' \<le> 2 \<and>
          index b l m = index b l' m' \<longrightarrow> l = l' \<and> m = m'"
    by blast
  from b(3) have i: "\<exists>i. index b 2 1 = Inr i \<and> i < 5" by simp
  have ne: "index b 2 1 \<noteq> index b 2 0"
  proof
    assume "index b 2 1 = index b 2 0"
    with b(4)[rule_format, of 1 2 0 2] show False by simp
  qed
  have n: "Num_Alms 2 1 = Inr 5" using th[unfolded five] by (rule conjunct1)
  from b(1,2) i ne have "\<exists>b. Alm_Base_lmax_mmax 2 1 = Inr b \<and> n_entries b = 5 \<and>
      (\<exists>i. index b 2 1 = Inr i \<and> i < 5) \<and> index b 2 1 \<noteq> index b 2 0" by blast
  with h h2 h3 n show ?thesis by (intro conjI)
qed


section \<open>The sparse implicit constructor\<close>

text \<open>
  Claim C1 asks that \<^verbatim>\<open>Alm_Base(L, mval)\<close> packs the columns one after the other:
  slot \<open>0\<close> for the first column, and each next column starting right after the
  last slot of its predecessor, so that \<open>arrsize\<close> is the sum of the column
  lengths. The loop advances its counter by the length of the \<^emph>\<open>next\<close> column
  instead of the current one. With \<open>L = 1\<close> and \<open>mval = [0, 1]\<close>, whatever the read
  past the end returns, \<open>a(1,0)\<close> and \<open>a(1,1)\<close> both get slot \<open>1\<close> and \<open>arrsize\<close> is
  \<open>2\<close>, where the claim requires slot \<open>2\<close> for \<open>a(1,1)\<close> and \<open>arrsize = 3\<close>.
\<close>

theorem C1_sparse_implicit_overlap:
  "\<forall>past_end. \<exists>b. Alm_Base_mval past_end 1 [0, 1] = Inr b \<and>
      index b 1 0 = Inr 1 \<and> index b 1 1 = Inr 1 \<and> n_entries b = 2"
  by (simp add: Alm_Base_mval_def check_mval.simps implicit_loop.simps Let_def
        index_def index_l0_def n_entries_def size_t_def ptrdiff_t_def replicate_two)

section \<open>Constructing a store around a buffer\<close>

text \<open>
  Claim C5 says that any buffer with at least \<open>Num_Alms L M\<close> slots is accepted. The
  constructor asserts equality: a buffer of two slots is rejected for
  \<open>L = M = 0\<close>, where one slot is needed.
\<close>

theorem C5_larger_buffer_rejected:
  "Num_Alms 0 0 = Inr 1 \<and> length [0 :: int, 0] \<ge> 1 \<and>
   Alm_data [0 :: int, 0] 0 0 = Inl (ShapeError ''bad array size'')"
  by (simp add: Alm_data_def Num_Alms_def Alm_Base_lmax_mmax_def dense_loop.simps
        size_t_def ptrdiff_t_def)

text \<open>
  Claim C5, amended. For \<open>M \<le> L\<close>, and \<open>M\<close> not the largest \<^verbatim>\<open>size_t\<close>, the store is
  constructed around a buffer exactly when the buffer has as many slots as
  \<^verbatim>\<open>Num_Alms(L, M)\<close> returns, and every other length, smaller or larger, fails with
  the shape error \<^verbatim>\<open>bad array size\<close>. The number returned is
  \<open>(M+1)(M+2)/2 + (M+1)(L-M)\<close> whenever that is computed without wrap-around.
\<close>

theorem C5_exact_buffer_size:
  assumes "M \<le> L" "M + 1 < 2 ^ 64"
  shows "\<exists>n. Num_Alms L M = Inr n \<and>
           (no_wrap L M \<longrightarrow> n = ((M + 1) * (M + 2)) div 2 + (M + 1) * (L - M)) \<and>
           (length data = n \<longrightarrow>
              (\<exists>A. Alm_data data L M = Inr A \<and> alm A = data \<and> Lmax A = L \<and>
                   n_entries A = length data)) \<and>
           (length data \<noteq> n \<longrightarrow> Alm_data data L M = Inl (ShapeError ''bad array size''))"
proof -
  from dense_base[OF assms] obtain b n where b:
    "Alm_Base_lmax_mmax L M = Inr b" "Num_Alms L M = Inr n" "lmax b = L" "arrsize b = n"
    by blast
  have ex: "no_wrap L M \<longrightarrow> n = ((M + 1) * (M + 2)) div 2 + (M + 1) * (L - M)"
  proof
    assume "no_wrap L M"
    from Num_Alms_exact[OF assms(1) this] b(2)
    show "n = ((M + 1) * (M + 2)) div 2 + (M + 1) * (L - M)" by simp
  qed
  have ok: "length data = n \<longrightarrow>
              (\<exists>A. Alm_data data L M = Inr A \<and> alm A = data \<and> Lmax A = L \<and>
                   n_entries A = length data)"
    using b by (simp add: Alm_data_def Lmax_def n_entries_def)
  have bad: "length data \<noteq> n \<longrightarrow> Alm_data data L M = Inl (ShapeError ''bad array size'')"
    using b by (simp add: Alm_data_def)
  from b(2) ex ok bad show ?thesis by blast
qed

theorem C5_exact_buffer_size_witness:
  "(1::nat) \<le> 1 \<and> (1::nat) + 1 < 2 ^ 64 \<and> no_wrap 1 1 \<and> Num_Alms 1 1 = Inr 3 \<and>
   (\<exists>A. Alm_data [1, 2, 3 :: int] 1 1 = Inr A \<and> alm A = [1, 2, 3]) \<and>
   Alm_data [1, 2 :: int] 1 1 = Inl (ShapeError ''bad array size'') \<and>
   Alm_data [1, 2, 3, 4 :: int] 1 1 = Inl (ShapeError ''bad array size'')"
proof -
  have h: "(1::nat) \<le> 1" by simp
  have h2: "(1::nat) + 1 < 2 ^ 64" by simp
  have nw: "no_wrap 1 1" by (simp add: no_wrap_def coeff_count_def)
  have three: "(((1::nat) + 1) * (1 + 2)) div 2 + (1 + 1) * (1 - 1) = 3" by simp
  have pick: "Num_Alms 1 1 = Inr 3 \<and> (length data = 3 \<longrightarrow> P) \<and> (length data \<noteq> 3 \<longrightarrow> Q)"
    if "\<exists>n. Num_Alms 1 1 = Inr n \<and> (no_wrap 1 1 \<longrightarrow> n = 3) \<and> (length data = n \<longrightarrow> P)
          \<and> (length data \<noteq> n \<longrightarrow> Q)" for data :: "int list" and P Q
    using that nw by auto
  note a = pick[OF C5_exact_buffer_size[OF h h2, of "[1, 2, 3 :: int]", unfolded three]]
  note b = pick[OF C5_exact_buffer_size[OF h h2, of "[1, 2 :: int]", unfolded three]]
  note c = pick[OF C5_exact_buffer_size[OF h h2, of "[1, 2, 3, 4 :: int]", unfolded three]]
  from a have n: "Num_Alms 1 1 = Inr 3" by (rule conjunct1)
  from a have ra: "\<exists>A. Alm_data [1, 2, 3 :: int] 1 1 = Inr A \<and> alm A = [1, 2, 3]" by auto
  from b have rb: "Alm_data [1, 2 :: int] 1 1 = Inl (ShapeError ''bad array size'')" by simp
  from c have rc: "Alm_data [1, 2, 3, 4 :: int] 1 1 = Inl (ShapeError ''bad array size'')"
    by simp
  from h h2 nw n ra rb rc show ?thesis by (intro conjI)
qed

section \<open>The scheduler\<close>

text \<open>
  Claim C2 says that after \<^verbatim>\<open>execParallel(n, f)\<close> worker \<open>t\<close> gets \<open>[t, t+1)\<close> from its
  first \<open>getNext\<close> and that the table of per-worker positions is never read out
  of range. \<^verbatim>\<open>execParallel\<close> selects the \<^verbatim>\<open>STATIC\<close> mode without sizing or filling
  \<^verbatim>\<open>nextstart\<close>, which \<^verbatim>\<open>execStatic\<close> does; the table of the fresh \<^verbatim>\<open>Distribution\<close> is
  empty, so every call of \<open>getNext\<close> reads it out of range.
\<close>

theorem C2_execParallel_getNext:
  "getNext (execParallel dn u nthreads') t = Inl OutOfRange"
  by (simp add: getNext_def execParallel_def Distribution_execParallel_def
        Distribution_new_def Let_def)


lemma single_done_calls:
  "mode D = SINGLE \<Longrightarrow> single_done D \<Longrightarrow>
   calls D ts = Inr (replicate (length ts) Range_empty, D)"
  by (induction ts) (simp_all add: getNext_def)

lemma single_calls:
  "mode D = SINGLE \<Longrightarrow> \<not> single_done D \<Longrightarrow>
   calls D (t # ts) =
     Inr (\<lparr>lo = 0, hi = nwork D\<rparr> # replicate (length ts) Range_empty, D\<lparr>single_done := True\<rparr>)"
  using single_done_calls[of "D\<lparr>single_done := True\<rparr>" ts]
  by (simp add: getNext_def)

text \<open>
  Claim C8, amended. Under \<^verbatim>\<open>SINGLE\<close> scheduling the first \<open>getNext\<close> returns
  \<open>[0, nwork)\<close> and every later call returns the empty range; the first range is
  non-empty exactly when \<open>nwork > 0\<close>.
\<close>

theorem C8_single_then_empty:
  "calls (Distribution_execSingle d nwork') (t # ts) =
     Inr (\<lparr>lo = 0, hi = nwork'\<rparr> # replicate (length ts) Range_empty,
          (Distribution_execSingle d nwork')\<lparr>single_done := True\<rparr>) \<and>
   (items \<lparr>lo = 0, hi = nwork'\<rparr> \<noteq> {} \<longleftrightarrow> 0 < nwork') \<and>
   items Range_empty = {}"
  using single_calls[of "Distribution_execSingle d nwork'" t ts]
  by (simp add: Distribution_execSingle_def items_def Range_empty_def)

text \<open>
  Claim C8 says that for every \<open>nwork\<close> the first range is non-empty. With
  \<open>nwork = 0\<close> the first call returns \<open>[0, 0)\<close>, which holds no work item.
\<close>

theorem C8_no_work_no_range:
  "map_sum id fst
     (getNext (execSingle \<lparr>nthreads = 0, nwork = 0, cur = 0, chunksize = 0, fact_max = 0,
                 nextstart = [], mode = DYNAMIC, single_done = True\<rparr> 0) 0)
     = Inr \<lparr>lo = 0, hi = 0\<rparr> \<and>
   items \<lparr>lo = 0, hi = 0\<rparr> = {}"
  by (simp add: getNext_def execSingle_def Distribution_execSingle_def Distribution_new_def
        items_def)

lemma nextstart_loop_spec:
  "i \<le> length ns \<Longrightarrow>
   length (nextstart_loop C i ns) = length ns \<and>
   (\<forall>j<length ns. nextstart_loop C i ns ! j = (if j < i then ns ! j else (j * C) mod 2 ^ 64))"
proof (induction C i ns rule: nextstart_loop.induct)
  case (1 C i ns)
  note eq = nextstart_loop.simps[of C i ns]
  show ?case
  proof (cases "i < length ns")
    case True
    with "1.IH" have IH:
      "length (nextstart_loop C (Suc i) (ns[i := (i * C) mod 2 ^ 64])) = length ns \<and>
      (\<forall>j<length ns. nextstart_loop C (Suc i) (ns[i := (i * C) mod 2 ^ 64]) ! j =
          (if j < Suc i then (ns[i := (i * C) mod 2 ^ 64]) ! j else (j * C) mod 2 ^ 64))"
      by simp
    have e: "nextstart_loop C i ns = nextstart_loop C (Suc i) (ns[i := (i * C) mod 2 ^ 64])"
      unfolding eq using True by simp
    show ?thesis unfolding e using IH True
      by (auto simp: nth_list_update less_Suc_eq)
  next
    case False
    then show ?thesis unfolding eq by simp
  qed
qed

lemma length_resize: "length (resize xs n) = n"
  by (simp add: resize_def)

text \<open>Static scheduling: one call of \<open>getNext\<close>, then a whole run.\<close>

lemma chunk_start_mono: "k \<le> k' \<Longrightarrow> (t + k * n) * C \<le> (t + k' * n) * (C::nat)"
  by (simp add: mult_le_mono)

lemma static_step:
  assumes inv: "static_inv C n W c D" and t: "t < n" and fit: "W + n * C < 2 ^ 64"
  shows "\<exists>D'. getNext D t = Inr (static_chunk C n W t (c t), D') \<and>
               static_inv C n W (c(t := Suc (c t))) D'"
proof -
  from inv have f: "mode D = STATIC" "nthreads D = n" "nwork D = W" "chunksize D = C"
    "length (nextstart D) = n"
    and all: "\<forall>t<n. \<exists>k\<le>c t. nextstart D ! t = (t + k * n) * C \<and>
                      (k < c t \<longrightarrow> W \<le> (t + k * n) * C)"
    by (simp_all add: static_inv_def)
  from all t obtain k where k: "k \<le> c t" "nextstart D ! t = (t + k * n) * C"
    "k < c t \<longrightarrow> W \<le> (t + k * n) * C" by blast
  show ?thesis
  proof (cases "W \<le> nextstart D ! t")
    case True
    have "(t + k * n) * C \<le> (t + c t * n) * C"
      using k(1) by (rule chunk_start_mono)
    with True k(2) have "W \<le> (t + c t * n) * C" by linarith
    then have r: "static_chunk C n W t (c t) = Range_empty"
      by (simp add: static_chunk_def)
    have g: "getNext D t = Inr (Range_empty, D)"
      using True f t by (simp add: getNext_def)
    have "static_inv C n W (c(t := Suc (c t))) D"
      unfolding static_inv_def
    proof (intro conjI allI impI)
      fix s assume s: "s < n"
      show "\<exists>k\<le>(c(t := Suc (c t))) s. nextstart D ! s = (s + k * n) * C \<and>
              (k < (c(t := Suc (c t))) s \<longrightarrow> W \<le> (s + k * n) * C)"
      proof (cases "s = t")
        case True
        with k \<open>W \<le> nextstart D ! t\<close> show ?thesis
          by (intro exI[of _ k]) simp
      next
        case False
        with all s show ?thesis by simp
      qed
    qed (use f in simp_all)
    with g r show ?thesis by simp
  next
    case False
    then have lt: "(t + k * n) * C < W" using k(2) by simp
    with k(1,3) have kc: "k = c t" by (cases "k < c t") simp_all
    let ?lo = "(t + k * n) * C"
    have "C \<le> n * C" using t by simp
    then have b1: "?lo + C < 2 ^ 64" using lt fit by linarith
    have b2: "?lo + n * C < 2 ^ 64" using lt fit by linarith
    let ?D' = "D\<lparr>nextstart := (nextstart D)[t := ?lo + n * C]\<rparr>"
    have "getNext D t = Inr (\<lparr>lo = ?lo, hi = min ((?lo + C) mod 2 ^ 64) W\<rparr>,
                              D\<lparr>nextstart := (nextstart D)[t := (?lo + n * C) mod 2 ^ 64]\<rparr>)"
      using False f t k(2) by (simp add: getNext_def Let_def)
    then have "getNext D t = Inr (\<lparr>lo = ?lo, hi = min (?lo + C) W\<rparr>, ?D')"
      by (simp only: mod_less[OF b1] mod_less[OF b2])
    then have g: "getNext D t = Inr (static_chunk C n W t (c t), ?D')"
      using lt kc by (simp add: static_chunk_def)
    have "static_inv C n W (c(t := Suc (c t))) ?D'"
      unfolding static_inv_def
    proof (intro conjI allI impI)
      fix s assume s: "s < n"
      show "\<exists>k\<le>(c(t := Suc (c t))) s. nextstart ?D' ! s = (s + k * n) * C \<and>
              (k < (c(t := Suc (c t))) s \<longrightarrow> W \<le> (s + k * n) * C)"
      proof (cases "s = t")
        case True
        have "nextstart ?D' ! t = (t + Suc k * n) * C"
          using f t by (simp add: algebra_simps)
        with True kc show ?thesis
          by (intro exI[of _ "Suc k"]) simp
      next
        case False
        with all s f show ?thesis by simp
      qed
    qed (use f in simp_all)
    with g show ?thesis by blast
  qed
qed

lemma static_calls:
  assumes "static_inv C n W c D" "\<forall>t\<in>set ts. t < n" "W + n * C < 2 ^ 64"
  shows "\<exists>rs D'. calls D ts = Inr (rs, D') \<and> length rs = length ts \<and>
           (\<forall>j<length ts. rs ! j =
               static_chunk C n W (ts ! j) (c (ts ! j) + count_list (take j ts) (ts ! j)))"
  using assms(1,2)
proof (induction ts arbitrary: c D)
  case Nil
  then show ?case by simp
next
  case (Cons t ts)
  from Cons.prems have t: "t < n" and ts: "\<forall>t\<in>set ts. t < n" by simp_all
  from static_step[OF Cons.prems(1) t assms(3)] obtain D1 where
    g: "getNext D t = Inr (static_chunk C n W t (c t), D1)" and
    inv1: "static_inv C n W (c(t := Suc (c t))) D1" by blast
  from Cons.IH[OF inv1 ts] obtain rs D' where
    r: "calls D1 ts = Inr (rs, D')" "length rs = length ts"
    "\<forall>j<length ts. rs ! j = static_chunk C n W (ts ! j)
         ((c(t := Suc (c t))) (ts ! j) + count_list (take j ts) (ts ! j))"
    by blast
  have c: "calls D (t # ts) = Inr (static_chunk C n W t (c t) # rs, D')"
    using g r(1) by simp
  have "(static_chunk C n W t (c t) # rs) ! j =
          static_chunk C n W ((t # ts) ! j) (c ((t # ts) ! j)
            + count_list (take j (t # ts)) ((t # ts) ! j))"
    if "j < length (t # ts)" for j
  proof (cases j)
    case 0
    then show ?thesis by simp
  next
    case (Suc i)
    with that have "i < length ts" by simp
    with r(3) Suc show ?thesis by simp
  qed
  with c r(2) show ?case by simp
qed

text \<open>The chunks of all workers tile \<open>[0, W)\<close>.\<close>

lemma static_chunk_items:
  "x \<in> items (static_chunk C n W t k) \<longleftrightarrow>
     (t + k * n) * C \<le> x \<and> x < (t + k * n) * C + C \<and> x < W"
  by (auto simp: static_chunk_def items_def Range_empty_def)

lemma chunk_number:
  assumes "c * C \<le> x" "x < c * C + (C::nat)"
  shows "c = x div C"
proof -
  from assms have "0 < C" by (cases C) simp_all
  have "x div C = c"
  proof (rule div_nat_eqI)
    show "C * c \<le> x" using assms(1) by (simp add: mult.commute)
    show "x < C * Suc c" using assms(2) by (simp add: algebra_simps)
  qed
  then show ?thesis by simp
qed

lemma worker_call_unique:
  assumes "t < n" "t' < n" "t + k * n = t' + k' * (n::nat)"
  shows "t = t' \<and> k = k'"
proof -
  have "(t + k * n) mod n = t" "(t' + k' * n) mod n = t'" using assms(1,2) by simp_all
  with assms(3) have tt: "t = t'" by metis
  with assms have "k * n = k' * n" by simp
  with assms(1) have "k = k'" by simp
  with tt show ?thesis by simp
qed

lemma static_cover:
  assumes "0 < n" "0 < C \<or> W = 0"
  shows "(\<Union>t<n. \<Union>k. items (static_chunk C n W t k)) = {0..<W}"
proof (intro set_eqI iffI)
  fix x assume "x \<in> (\<Union>t<n. \<Union>k. items (static_chunk C n W t k))"
  then show "x \<in> {0..<W}" by (auto simp: static_chunk_items)
next
  fix x assume "x \<in> {0..<W}"
  then have x: "x < W" by simp
  show "x \<in> (\<Union>t<n. \<Union>k. items (static_chunk C n W t k))"
  proof (cases "C = 0")
    case True
    with assms(2) x show ?thesis by simp
  next
    case False
    let ?c = "x div C"
    have "(?c mod n + (?c div n) * n) * C \<le> x"
      by (simp add: mod_div_mult_eq)
    moreover have "x < (?c mod n + (?c div n) * n) * C + C"
      using False by (simp add: mod_div_mult_eq) (metis dividend_less_times_div mult.commute add.commute)
    ultimately have "x \<in> items (static_chunk C n W (?c mod n) (?c div n))"
      using x by (simp add: static_chunk_items)
    moreover have "?c mod n < n" using assms by simp
    ultimately show ?thesis by blast
  qed
qed

lemma static_disjoint:
  assumes "t < n" "t' < n" "(t, k) \<noteq> (t', k')"
  shows "items (static_chunk C n W t k) \<inter> items (static_chunk C n W t' k') = {}"
proof (rule ccontr)
  assume "items (static_chunk C n W t k) \<inter> items (static_chunk C n W t' k') \<noteq> {}"
  then obtain x where x: "x \<in> items (static_chunk C n W t k)"
    "x \<in> items (static_chunk C n W t' k')" by blast
  from x(1) have "t + k * n = x div C"
    by (intro chunk_number) (simp_all add: static_chunk_items)
  moreover from x(2) have "t' + k' * n = x div C"
    by (intro chunk_number) (simp_all add: static_chunk_items)
  ultimately have "t + k * n = t' + k' * n" by simp
  from worker_call_unique[OF assms(1,2) this] assms(3) show False by simp
qed

lemma static_ascending:
  assumes "0 < n" "k < k'" "items (static_chunk C n W t k') \<noteq> {}"
  shows "items (static_chunk C n W t k) \<noteq> {} \<and>
         hi (static_chunk C n W t k) \<le> lo (static_chunk C n W t k')"
proof -
  from assms(3) have s': "(t + k' * n) * C < W" and C: "0 < C"
    by (auto simp: static_chunk_def items_def Range_empty_def split: if_splits)
  have "Suc k \<le> k'" using assms(2) by simp
  then have a: "(t + Suc k * n) * C \<le> (t + k' * n) * C" by (rule chunk_start_mono)
  have b: "(t + Suc k * n) * C = (t + k * n) * C + n * C" by (simp add: algebra_simps)
  have "C \<le> n * C" using assms(1) by simp
  with a b have le': "(t + k * n) * C + C \<le> (t + k' * n) * C" by linarith
  with s' C show ?thesis
    by (simp add: static_chunk_def items_def)
qed

lemma count_take_const:
  "\<forall>t\<in>set ts. t = a \<Longrightarrow> j \<le> length ts \<Longrightarrow> count_list (take j ts) a = j"
proof (induction ts arbitrary: j)
  case Nil
  then show ?case by simp
next
  case (Cons t ts)
  then show ?case by (cases j) simp_all
qed

text \<open>What \<^verbatim>\<open>execStatic\<close> leaves behind, in both of its branches.\<close>

lemma execStatic_unfold:
  assumes n: "n = (if nthreads' = 0 then dn else nthreads')"
    and C: "C = (if chunksize' < 1 then size_t (int W + int n - 1) div n else chunksize')"
  shows "Distribution_execStatic dn d W nthreads' chunksize' =
           (if W \<le> C
            then Distribution_execSingle
                   (d\<lparr>mode := STATIC, nthreads := n, nwork := W, chunksize := C\<rparr>) W
            else d\<lparr>mode := STATIC, nthreads := n, nwork := W, chunksize := C,
                   nextstart := nextstart_loop C 0 (resize (nextstart d) n)\<rparr>)"
  unfolding Distribution_execStatic_def Let_def n C by simp

lemma default_chunk:
  assumes "1 \<le> n" "W + n \<le> 2 ^ 64"
  shows "size_t (int W + int n - 1) = W + n - 1"
proof -
  have e: "int W + int n - 1 = int (W + n - 1)" using assms(1) by simp
  have "W + n - 1 < 2 ^ 64" using assms by linarith
  then show ?thesis unfolding e by (rule size_t_int)
qed

lemma execStatic_chunk:
  assumes "1 \<le> n" "chunksize' < 1 \<longrightarrow> W + n \<le> 2 ^ 64"
    and "C = (if chunksize' < 1 then (W + n - 1) div n else chunksize')"
  shows "C = (if chunksize' < 1 then size_t (int W + int n - 1) div n else chunksize')"
proof (cases "chunksize' < 1")
  case True
  with assms(2) have "W + n \<le> 2 ^ 64" by simp
  from default_chunk[OF assms(1) this] assms(3) True show ?thesis by simp
next
  case False
  with assms(3) show ?thesis by simp
qed

lemma execStatic_static:
  assumes n: "n = (if nthreads' = 0 then dn else nthreads')"
    and C: "C = (if chunksize' < 1 then size_t (int W + int n - 1) div n else chunksize')"
    and lt: "C < W" and fit: "W + n * C < 2 ^ 64"
  shows "static_inv C n W (\<lambda>t. 0) (Distribution_execStatic dn d W nthreads' chunksize')"
proof -
  let ?ns = "resize (nextstart d) n"
  have l: "length ?ns = n" by (rule length_resize)
  from nextstart_loop_spec[of 0 ?ns C] l
  have ns: "length (nextstart_loop C 0 ?ns) = n"
    "\<forall>j<n. nextstart_loop C 0 ?ns ! j = (j * C) mod 2 ^ 64" by simp_all
  have ns': "nextstart_loop C 0 ?ns ! j = j * C" if "j < n" for j
  proof -
    have "j * C \<le> n * C" using that by simp
    then have "j * C < 2 ^ 64" using fit by linarith
    then show ?thesis using ns(2) that by simp
  qed
  have "\<not> W \<le> C" using lt by simp
  then have "Distribution_execStatic dn d W nthreads' chunksize' =
          d\<lparr>mode := STATIC, nthreads := n, nwork := W, chunksize := C,
            nextstart := nextstart_loop C 0 ?ns\<rparr>"
    by (simp only: execStatic_unfold[OF n C] if_False)
  then show ?thesis
    using ns(1) ns' by (simp add: static_inv_def)
qed

lemma execStatic_single:
  assumes n: "n = (if nthreads' = 0 then dn else nthreads')"
    and C: "C = (if chunksize' < 1 then size_t (int W + int n - 1) div n else chunksize')"
    and le: "W \<le> C"
  shows "Distribution_execStatic dn d W nthreads' chunksize' =
           Distribution_execSingle
             (d\<lparr>mode := STATIC, nthreads := n, nwork := W, chunksize := C\<rparr>) W"
  using le by (simp only: execStatic_unfold[OF n C] if_True)

lemma ceil_div_pos: "0 < W \<Longrightarrow> 0 < n \<Longrightarrow> 0 < (W + n - 1) div (n::nat)"
  by (simp add: div_greater_zero_iff)

lemma single_as_static:
  assumes D: "mode D = SINGLE" "\<not> single_done D" "nwork D = W" and le: "W \<le> C"
    and ts: "\<forall>t\<in>set ts. t < 1"
  shows "\<exists>rs D'. calls D ts = Inr (rs, D') \<and> length rs = length ts \<and>
           (\<forall>j<length ts. rs ! j =
               static_chunk C 1 W (ts ! j) (count_list (take j ts) (ts ! j)))"
proof (cases ts)
  case Nil
  then show ?thesis by simp
next
  case (Cons t ts')
  from ts have z: "\<forall>t\<in>set ts. t = 0" by simp
  have c: "calls D ts =
      Inr (\<lparr>lo = 0, hi = W\<rparr> # replicate (length ts') Range_empty, D\<lparr>single_done := True\<rparr>)"
    using single_calls[OF D(1,2), of t ts'] D(3) Cons by simp
  have "(\<lparr>lo = 0, hi = W\<rparr> # replicate (length ts') Range_empty) ! j =
          static_chunk C 1 W (ts ! j) (count_list (take j ts) (ts ! j))"
    if j: "j < length ts" for j
  proof -
    from z j have tj: "ts ! j = 0" by simp
    have cnt: "count_list (take j ts) 0 = j"
      using count_take_const[OF z, of j] j by simp
    show ?thesis
    proof (cases j)
      case 0
      with tj cnt le show ?thesis
        by (cases "W = 0") (simp_all add: static_chunk_def Range_empty_def)
    next
      case (Suc i)
      have "W \<le> j * C"
      proof -
        have "C \<le> j * C" using Suc by simp
        with le show ?thesis by linarith
      qed
      with Suc j Cons tj cnt show ?thesis
        by (simp add: static_chunk_def)
    qed
  qed
  with c Cons show ?thesis by simp
qed

text \<open>
  Claim C7 says that for every \<open>nwork\<close>, \<open>nthreads\<close> and chunk size the ranges of
  static scheduling are the chunks \<open>t + k nthreads\<close> and cover \<open>[0, nwork)\<close> without
  overlap. The positions are computed in \<^verbatim>\<open>size_t\<close>. With \<open>nwork = 2 ^ 64 - 1\<close>, two
  workers and chunk size \<open>2 ^ 63\<close>, the advance \<^verbatim>\<open>nthreads_*chunksize_\<close> wraps to \<open>0\<close>:
  worker \<open>0\<close> gets \<open>[0, 2 ^ 63)\<close> on every call, where the claim has its chunks
  ascending and disjoint, and for worker \<open>1\<close> the upper end \<^verbatim>\<open>lo+chunksize_\<close> wraps
  to \<open>0\<close>, so that its range \<open>[2 ^ 63, 0)\<close> holds no item and the upper half of the
  work is never handed out.
\<close>

theorem C7_positions_wrap:
  "map_sum id fst
     (calls (execStatic 1 \<lparr>nthreads = 0, nwork = 0, cur = 0, chunksize = 0, fact_max = 0,
                            nextstart = [], mode = SINGLE, single_done = False\<rparr>
               (2 ^ 64 - 1) 2 (2 ^ 63)) [0, 0, 1])
     = Inr [\<lparr>lo = 0, hi = 2 ^ 63\<rparr>, \<lparr>lo = 0, hi = 2 ^ 63\<rparr>, \<lparr>lo = 2 ^ 63, hi = 0\<rparr>] \<and>
   items \<lparr>lo = 2 ^ 63, hi = 0\<rparr> = {} \<and>
   static_chunk (2 ^ 63) 2 (2 ^ 64 - 1) 0 1 = Range_empty \<and>
   static_chunk (2 ^ 63) 2 (2 ^ 64 - 1) 1 0 = \<lparr>lo = 2 ^ 63, hi = 2 ^ 64 - 1\<rparr>"
  by (simp add: execStatic_def Distribution_execStatic_def Distribution_new_def resize_def
        nextstart_loop.simps getNext_def Let_def items_def static_chunk_def replicate_two)

text \<open>
  Claim C7, amended. Let \<open>n\<close> be the number of workers (the default when \<open>0\<close> is
  passed) and \<open>C\<close> the chunk size (\<open>\<lceil>W / n\<rceil>\<close> when \<open>0\<close> is passed), and let the
  positions stay within \<^verbatim>\<open>size_t\<close>: \<open>W + n \<le> 2 ^ 64\<close> where the default chunk size
  is computed, and \<open>W + n C < 2 ^ 64\<close> where \<open>C < W\<close>. \<^verbatim>\<open>execStatic\<close> degrades to
  \<^verbatim>\<open>SINGLE\<close> with one worker when \<open>C \<ge> W\<close> and runs \<^verbatim>\<open>STATIC\<close> with \<open>n\<close> workers
  otherwise. In every interleaving of the workers' calls, the call number \<open>k\<close> of
  worker \<open>t\<close> returns chunk \<open>t + k n\<close> cut off at \<open>W\<close>, or the empty range once that
  chunk lies beyond \<open>W\<close>; these ranges cover \<open>[0, W)\<close>, no two of them overlap, and
  those of one worker are ascending.
\<close>

theorem C7_static_schedule:
  assumes dn: "1 \<le> dn"
    and n: "n = (if nthreads' = 0 then dn else nthreads')"
    and C: "C = (if chunksize' < 1 then (W + n - 1) div n else chunksize')"
    and fit1: "chunksize' < 1 \<longrightarrow> W + n \<le> 2 ^ 64"
    and fit2: "C < W \<longrightarrow> W + n * C < 2 ^ 64"
    and D: "D = Distribution_execStatic dn d W nthreads' chunksize'"
  shows "(W \<le> C \<longrightarrow> mode D = SINGLE \<and> nthreads D = 1) \<and>
         (C < W \<longrightarrow> mode D = STATIC \<and> nthreads D = n) \<and>
         (\<forall>ts. (\<forall>t\<in>set ts. t < nthreads D) \<longrightarrow>
            (\<exists>rs D'. calls D ts = Inr (rs, D') \<and> length rs = length ts \<and>
               (\<forall>j<length ts. rs ! j =
                  static_chunk C (nthreads D) W (ts ! j) (count_list (take j ts) (ts ! j))))) \<and>
         (\<Union>t<nthreads D. \<Union>k. items (static_chunk C (nthreads D) W t k)) = {0..<W} \<and>
         (\<forall>t t' k k'. t < nthreads D \<and> t' < nthreads D \<and> (t, k) \<noteq> (t', k') \<longrightarrow>
            items (static_chunk C (nthreads D) W t k)
              \<inter> items (static_chunk C (nthreads D) W t' k') = {}) \<and>
         (\<forall>t k k'. k < k' \<and> items (static_chunk C (nthreads D) W t k') \<noteq> {} \<longrightarrow>
            items (static_chunk C (nthreads D) W t k) \<noteq> {} \<and>
            hi (static_chunk C (nthreads D) W t k) \<le> lo (static_chunk C (nthreads D) W t k'))"
proof -
  have npos: "0 < n" using dn n by (simp split: if_splits)
  then have n1: "1 \<le> n" by simp
  note C' = execStatic_chunk[OF n1 fit1 C]
  have Cpos: "0 < C \<or> W = 0"
  proof (cases "W = 0")
    case False
    then have "0 < (W + n - 1) div n" using npos by (intro ceil_div_pos) simp_all
    then show ?thesis using C by (simp split: if_splits)
  qed simp
  have m1: "mode D = SINGLE \<and> nthreads D = 1 \<and> \<not> single_done D \<and> nwork D = W"
    if "W \<le> C"
    using execStatic_single[OF n C' that] unfolding D
    by (simp add: Distribution_execSingle_def)
  have inv: "static_inv C n W (\<lambda>t. 0) D" if "C < W"
    unfolding D using n C' that fit2[THEN mp, OF that] by (rule execStatic_static)
  have m2: "mode D = STATIC \<and> nthreads D = n" if "C < W"
    using inv[OF that] by (simp add: static_inv_def)
  have modes: "(W \<le> C \<longrightarrow> mode D = SINGLE \<and> nthreads D = 1 \<and> \<not> single_done D \<and> nwork D = W) \<and>
               (C < W \<longrightarrow> mode D = STATIC \<and> nthreads D = n)"
    using m1 m2 by blast
  have Dpos: "0 < nthreads D" using modes npos by (cases "W \<le> C") simp_all
  have run: "\<exists>rs D'. calls D ts = Inr (rs, D') \<and> length rs = length ts \<and>
               (\<forall>j<length ts. rs ! j =
                  static_chunk C (nthreads D) W (ts ! j) (count_list (take j ts) (ts ! j)))"
    if ts: "\<forall>t\<in>set ts. t < nthreads D" for ts
  proof (cases "W \<le> C")
    case True
    with modes have m: "mode D = SINGLE" "nthreads D = 1" "\<not> single_done D" "nwork D = W"
      by simp_all
    from single_as_static[OF m(1,3,4) True] ts m(2) show ?thesis by simp
  next
    case False
    then have lt: "C < W" by simp
    with modes have m: "nthreads D = n" by simp
    from ts have ts': "\<forall>t\<in>set ts. t < n" unfolding m .
    from static_calls[OF inv[OF lt] ts' fit2[THEN mp, OF lt]] m
    show ?thesis by simp
  qed
  have cover: "(\<Union>t<nthreads D. \<Union>k. items (static_chunk C (nthreads D) W t k)) = {0..<W}"
    using Dpos Cpos by (rule static_cover)
  have disj: "items (static_chunk C (nthreads D) W t k)
              \<inter> items (static_chunk C (nthreads D) W t' k') = {}"
    if "t < nthreads D" "t' < nthreads D" "(t, k) \<noteq> (t', k')" for t t' k k'
    using that by (rule static_disjoint)
  have asc: "items (static_chunk C (nthreads D) W t k) \<noteq> {} \<and>
            hi (static_chunk C (nthreads D) W t k) \<le> lo (static_chunk C (nthreads D) W t k')"
    if "k < k'" "items (static_chunk C (nthreads D) W t k') \<noteq> {}" for t k k'
    using Dpos that by (rule static_ascending)
  have c1: "W \<le> C \<longrightarrow> mode D = SINGLE \<and> nthreads D = 1" using m1 by simp
  have c2: "C < W \<longrightarrow> mode D = STATIC \<and> nthreads D = n" using m2 by simp
  have c3: "\<forall>ts. (\<forall>t\<in>set ts. t < nthreads D) \<longrightarrow>
            (\<exists>rs D'. calls D ts = Inr (rs, D') \<and> length rs = length ts \<and>
               (\<forall>j<length ts. rs ! j =
                  static_chunk C (nthreads D) W (ts ! j) (count_list (take j ts) (ts ! j))))"
    using run by (intro allI impI)
  have c5: "\<forall>t t' k k'. t < nthreads D \<and> t' < nthreads D \<and> (t, k) \<noteq> (t', k') \<longrightarrow>
            items (static_chunk C (nthreads D) W t k)
              \<inter> items (static_chunk C (nthreads D) W t' k') = {}"
    using disj by (intro allI impI) (elim conjE)
  have c6: "\<forall>t k k'. k < k' \<and> items (static_chunk C (nthreads D) W t k') \<noteq> {} \<longrightarrow>
            items (static_chunk C (nthreads D) W t k) \<noteq> {} \<and>
            hi (static_chunk C (nthreads D) W t k) \<le> lo (static_chunk C (nthreads D) W t k')"
    using asc by (intro allI impI) (elim conjE)
  show ?thesis
    by (rule conjI[OF c1 conjI[OF c2 conjI[OF c3 conjI[OF cover conjI[OF c5 c6]]]]])
qed

theorem C7_static_schedule_witness:
  "(1::nat) \<le> 4 \<and> \<not> (2::nat) < 1 \<and> (10::nat) + 3 * 2 < 2 ^ 64 \<and>
   mode (Distribution_execStatic 4
           \<lparr>nthreads = 0, nwork = 0, cur = 0, chunksize = 0, fact_max = 0,
              nextstart = [], mode = SINGLE, single_done = False\<rparr> 10 3 2) = STATIC \<and>
   (\<exists>rs D'. calls (Distribution_execStatic 4
           \<lparr>nthreads = 0, nwork = 0, cur = 0, chunksize = 0, fact_max = 0,
              nextstart = [], mode = SINGLE, single_done = False\<rparr> 10 3 2) [0, 1, 0]
         = Inr (rs, D') \<and> rs ! 2 = \<lparr>lo = 6, hi = 8\<rparr>) \<and>
   items (static_chunk 2 3 10 0 0) \<inter> items (static_chunk 2 3 10 1 0) = {} \<and>
   hi (static_chunk 2 3 10 0 0) \<le> lo (static_chunk 2 3 10 0 1)"
proof -
  let ?U = "\<lparr>nthreads = 0, nwork = 0, cur = 0, chunksize = 0, fact_max = 0,
              nextstart = [], mode = SINGLE, single_done = False\<rparr>"
  let ?D = "Distribution_execStatic 4 ?U 10 3 2"
  have h1: "(1::nat) \<le> 4" by simp
  have h2: "(3::nat) = (if (3::nat) = 0 then 4 else 3)" by simp
  have h3: "(2::nat) = (if (2::nat) < 1 then (10 + 3 - 1) div 3 else 2)" by simp
  have h4: "(2::nat) < 1 \<longrightarrow> (10::nat) + 3 \<le> 2 ^ 64" by simp
  have h5: "(2::nat) < 10 \<longrightarrow> (10::nat) + 3 * 2 < 2 ^ 64" by simp
  note th = C7_static_schedule[OF h1 h2 h3 h4 h5 refl, of ?U]
  note c2 = th[THEN conjunct2, THEN conjunct1]
  note c3 = th[THEN conjunct2, THEN conjunct2, THEN conjunct1]
  note c5 = th[THEN conjunct2, THEN conjunct2, THEN conjunct2, THEN conjunct2, THEN conjunct1]
  note c6 = th[THEN conjunct2, THEN conjunct2, THEN conjunct2, THEN conjunct2, THEN conjunct2]
  from c2 have m: "mode ?D = STATIC" "nthreads ?D = 3" by simp_all
  have pre: "\<forall>t\<in>set [0, 1, 0::nat]. t < nthreads ?D" unfolding m(2) by simp
  have pick: "\<exists>rs D'. calls X ts = Inr (rs, D') \<and> rs ! i = f i"
    if "\<exists>rs D'. calls X ts = Inr (rs, D') \<and> length rs = length ts \<and>
          (\<forall>j<length ts. rs ! j = f j)" "i < length ts"
    for X ts i and f :: "nat \<Rightarrow> Range"
    using that by blast
  have v: "static_chunk 2 (nthreads ?D) 10 ([0, 1, 0] ! 2)
             (count_list (take 2 [0, 1, 0]) ([0, 1, 0::nat] ! 2)) = \<lparr>lo = 6, hi = 8\<rparr>"
    unfolding m(2) by (simp add: static_chunk_def numeral_2_eq_2)
  have e: "\<exists>rs D'. calls ?D [0, 1, 0] = Inr (rs, D') \<and> rs ! 2 = \<lparr>lo = 6, hi = 8\<rparr>"
    using pick[OF c3[THEN spec, of "[0, 1, 0]", THEN mp, OF pre], of 2] unfolding v by simp
  have dj: "items (static_chunk 2 3 10 0 0) \<inter> items (static_chunk 2 3 10 1 0) = {}"
    using c5[unfolded m(2), THEN spec[where x = 0], THEN spec[where x = 1],
          THEN spec[where x = 0], THEN spec[where x = 0]] by simp
  have ne: "items (static_chunk 2 3 10 0 1) \<noteq> {}"
    by (simp add: static_chunk_def items_def)
  have lt: "(0::nat) < 1" by simp
  have as: "hi (static_chunk 2 3 10 0 0) \<le> lo (static_chunk 2 3 10 0 1)"
    by (rule c6[unfolded m(2), THEN spec[where x = 0], THEN spec[where x = 0],
          THEN spec[where x = 1], THEN mp, OF conjI[OF lt ne], THEN conjunct2])
  have g4: "\<not> (2::nat) < 1" and g5: "(10::nat) + 3 * 2 < 2 ^ 64" by simp_all
  from h1 g4 g5 m(1) e dj as show ?thesis by (intro conjI)
qed

section \<open>Rounding to \<^verbatim>\<open>double\<close>\<close>

lemma rne_of_int: "rne (of_int k) = k"
  by (simp add: rne_def)

lemma rne_ge: "of_int K \<le> y \<Longrightarrow> K \<le> rne y"
proof -
  assume "of_int K \<le> y"
  then have "K \<le> \<lfloor>y\<rfloor>" by (simp add: le_floor_iff)
  moreover have "\<lfloor>y\<rfloor> \<le> rne y" by (simp add: rne_def Let_def)
  ultimately show ?thesis by (rule order_trans)
qed

lemma rne_le: "y \<le> of_int K \<Longrightarrow> rne y \<le> K"
proof -
  assume le: "y \<le> of_int K"
  have fl: "of_int \<lfloor>y\<rfloor> \<le> y" by simp
  show ?thesis
  proof (cases "y - of_int \<lfloor>y\<rfloor> < 1 / 2")
    case True
    then have "rne y = \<lfloor>y\<rfloor>" by (simp add: rne_def Let_def)
    moreover have "of_int \<lfloor>y\<rfloor> \<le> (of_int K :: real)" using fl le by (rule order_trans)
    ultimately show ?thesis by simp
  next
    case False
    then have "of_int \<lfloor>y\<rfloor> < y" by linarith
    then have "of_int \<lfloor>y\<rfloor> < (of_int K :: real)" using le by (rule less_le_trans)
    then have "\<lfloor>y\<rfloor> + 1 \<le> K" by simp
    moreover have "rne y \<le> \<lfloor>y\<rfloor> + 1" by (simp add: rne_def Let_def)
    ultimately show ?thesis by (rule order_trans[rotated])
  qed
qed

lemma double_exponent_eq:
  assumes "2 powr of_int e \<le> \<bar>x\<bar>" "\<bar>x\<bar> < 2 powr of_int (e + 1)" "- 1022 \<le> e"
  shows "double_exponent x = e"
proof -
  have "0 < (2::real) powr of_int e" by simp
  then have pos: "0 < \<bar>x\<bar>" using assms(1) by (rule less_le_trans)
  have "\<lfloor>log 2 \<bar>x\<bar>\<rfloor> = e"
    using assms(1,2) floor_log_eq_powr_iff[OF pos, of 2 e] by simp
  then show ?thesis using assms(3) by (simp add: double_exponent_def)
qed

lemma to_double_eq:
  assumes "2 powr of_int e \<le> \<bar>x\<bar>" "\<bar>x\<bar> < 2 powr of_int (e + 1)" "- 1022 \<le> e"
  shows "to_double x = of_int (rne (x / 2 powr (of_int e - 52))) * 2 powr (of_int e - 52)"
proof -
  have "0 < (2::real) powr of_int e" by simp
  then have "0 < \<bar>x\<bar>" using assms(1) by (rule less_le_trans)
  then have "x \<noteq> 0" by simp
  then show ?thesis
    by (simp only: to_double_def double_exponent_eq[OF assms] if_False)
qed

text \<open>A number that is a \<^verbatim>\<open>double\<close> is not changed.\<close>

lemma to_double_exact:
  assumes "2 powr of_int e \<le> \<bar>x\<bar>" "\<bar>x\<bar> < 2 powr of_int (e + 1)" "- 1022 \<le> e"
    and "x / 2 powr (of_int e - 52) = of_int k"
  shows "to_double x = x"
proof -
  have "to_double x = of_int k * 2 powr (of_int e - 52)"
    by (simp only: to_double_eq[OF assms(1-3)] assms(4) rne_of_int)
  also have "\<dots> = x / 2 powr (of_int e - 52) * 2 powr (of_int e - 52)"
    by (simp only: assms(4))
  also have "\<dots> = x" by simp
  finally show ?thesis .
qed

lemma to_double_0: "to_double 0 = 0"
  by (simp add: to_double_def)

lemma to_double_nonneg: "0 \<le> x \<Longrightarrow> 0 \<le> to_double x"
proof (cases "x = 0")
  case True
  then show ?thesis by (simp add: to_double_0)
next
  case False
  assume "0 \<le> x"
  let ?u = "2 powr (of_int (double_exponent x) - 52) :: real"
  have "of_int 0 \<le> x / ?u" using \<open>0 \<le> x\<close> by simp
  then have "0 \<le> rne (x / ?u)" by (rule rne_ge)
  then have "0 \<le> of_int (rne (x / ?u)) * ?u" by simp
  then show ?thesis using False by (simp only: to_double_def if_False)
qed

lemma floor_log_bounds:
  assumes "0 < x"
  shows "2 powr of_int \<lfloor>log 2 x\<rfloor> \<le> x" "x < 2 powr of_int (\<lfloor>log 2 x\<rfloor> + 1)"
  using floor_log_eq_powr_iff[OF assms, of 2 "\<lfloor>log 2 x\<rfloor>"] by simp_all

lemma to_double_le_pow2:
  assumes "0 \<le> x" "x \<le> 2 ^ k"
  shows "to_double x \<le> 2 ^ k"
proof (cases "x = 0")
  case True
  then show ?thesis by (simp add: to_double_0)
next
  case False
  with assms(1) have pos: "0 < x" by simp
  let ?e = "double_exponent x"
  let ?u = "2 powr (of_int ?e - 52) :: real"
  have "2 powr of_int \<lfloor>log 2 x\<rfloor> \<le> x" using pos by (rule floor_log_bounds)
  also have "x \<le> 2 powr of_int (int k)" using assms(2) by (simp add: powr_realpow)
  finally have "\<lfloor>log 2 x\<rfloor> \<le> int k" by simp
  then have ek: "?e \<le> int k" using pos by (simp add: double_exponent_def)
  define j where "j = nat (int k - ?e + 52)"
  have j: "int j = int k - ?e + 52" using ek by (simp add: j_def)
  have "(2::real) ^ k = 2 powr of_int (int k)" by (simp add: powr_realpow)
  also have "\<dots> = 2 powr (of_int (int j) + (of_int ?e - 52))" by (simp add: j)
  also have "\<dots> = 2 powr of_int (int j) * ?u" by (rule powr_add)
  also have "\<dots> = 2 ^ j * ?u" by (simp add: powr_realpow)
  finally have pk: "(2::real) ^ k = 2 ^ j * ?u" .
  have "x / ?u \<le> 2 ^ k / ?u" using assms(2) by (simp add: divide_right_mono)
  also have "\<dots> = 2 ^ j" unfolding pk by simp
  also have "\<dots> = of_int (2 ^ j)" by simp
  finally have "rne (x / ?u) \<le> 2 ^ j" by (rule rne_le)
  then have "of_int (rne (x / ?u)) \<le> (2::real) ^ j"
    by (metis of_int_le_iff of_int_numeral of_int_power)
  then have "of_int (rne (x / ?u)) * ?u \<le> 2 ^ j * ?u"
    by (simp add: mult_right_mono)
  then show ?thesis using False unfolding pk by (simp only: to_double_def if_False)
qed

lemma to_double_ge_one:
  assumes "1 \<le> x"
  shows "1 \<le> to_double x"
proof -
  from assms have pos: "0 < x" and nz: "x \<noteq> 0" by simp_all
  let ?f = "\<lfloor>log 2 x\<rfloor>"
  have "0 \<le> log 2 x" using assms by simp
  then have f0: "0 \<le> ?f" by simp
  then have "- 1022 \<le> ?f" by linarith
  then have "max ?f (- 1022) = ?f" by (rule max_absorb1)
  moreover have "\<bar>x\<bar> = x" using pos by simp
  ultimately have e: "double_exponent x = ?f" by (simp only: double_exponent_def)
  let ?u = "2 powr (of_int ?f - 52) :: real"
  have low: "2 powr of_int ?f \<le> x" using pos by (rule floor_log_bounds)
  have "(2::real) powr of_int ?f = 2 powr (52 + (of_int ?f - 52))" by simp
  also have "\<dots> = 2 powr 52 * ?u" by (rule powr_add)
  finally have pf: "(2::real) powr of_int ?f = 2 ^ 52 * ?u" by simp
  have "of_int (2 ^ 52) = (2::real) ^ 52" by simp
  also have "\<dots> = 2 powr of_int ?f / ?u" unfolding pf by simp
  also have "\<dots> \<le> x / ?u" using low by (simp add: divide_right_mono)
  finally have "2 ^ 52 \<le> rne (x / ?u)" by (rule rne_ge)
  then have "(2::real) ^ 52 \<le> of_int (rne (x / ?u))"
    by (metis of_int_le_iff of_int_numeral of_int_power)
  then have "2 ^ 52 * ?u \<le> of_int (rne (x / ?u)) * ?u"
    by (simp add: mult_right_mono)
  then have "2 powr of_int ?f \<le> to_double x"
    using nz unfolding pf by (simp only: to_double_def e if_False)
  moreover have "(1::real) \<le> 2 powr of_int ?f" using f0 by (simp add: ge_one_powr_ge_zero)
  ultimately show ?thesis by (rule order_trans[rotated])
qed

text \<open>
  The quotient of guided scheduling: \<open>0\<close> for the factor \<open>0\<close>, and within
  \<open>[0, 2 ^ 63]\<close> for a factor in \<open>[0, 1]\<close> and at most \<open>2 ^ 63\<close> items.
\<close>

lemma guided_quot_0: "guided_quot 0 rem n = 0"
  by (simp add: guided_quot_def to_double_0)

lemma guided_quot_range:
  assumes "0 \<le> f" "f \<le> 1" "rem \<le> 2 ^ 63" "1 \<le> n"
  shows "0 \<le> guided_quot f rem n" "guided_quot f rem n \<le> 2 ^ 63"
proof -
  let ?a = "to_double (real rem)"
  have r0: "0 \<le> real rem" by simp
  have r1: "real rem \<le> 2 ^ 63"
    using assms(3) by (metis of_nat_le_iff of_nat_numeral of_nat_power)
  have a: "0 \<le> ?a" "?a \<le> 2 ^ 63"
    by (rule to_double_nonneg[OF r0], rule to_double_le_pow2[OF r0 r1])
  have p0: "0 \<le> f * ?a" using assms(1) a(1) by (rule mult_nonneg_nonneg)
  have "f * ?a \<le> 1 * ?a" using assms(2) a(1) by (rule mult_right_mono)
  then have "f * ?a \<le> ?a" by (simp only: mult_1)
  then have p1: "f * ?a \<le> 2 ^ 63" using a(2) by (rule order_trans)
  let ?q = "to_double (f * ?a)"
  have q: "0 \<le> ?q" "?q \<le> 2 ^ 63"
    by (rule to_double_nonneg[OF p0], rule to_double_le_pow2[OF p0 p1])
  let ?b = "to_double (real n)"
  have "1 \<le> real n" using assms(4) by simp
  then have b: "1 \<le> ?b" by (rule to_double_ge_one)
  then have bpos: "0 < ?b" by linarith
  have d0: "0 \<le> ?q / ?b" using q(1) bpos by (simp only: zero_le_divide_iff) simp
  have "?q / ?b \<le> ?q" using q(1) b bpos by (simp add: divide_le_eq mult_le_cancel_left1)
  then have d1: "?q / ?b \<le> 2 ^ 63" using q(2) by (rule order_trans)
  show "0 \<le> guided_quot f rem n" unfolding guided_quot_def using d0 by (rule to_double_nonneg)
  show "guided_quot f rem n \<le> 2 ^ 63" unfolding guided_quot_def using d0 d1
    by (rule to_double_le_pow2)
qed

lemma guided_quot_defined:
  assumes "f = 0 \<or> (0 \<le> f \<and> f \<le> 1 \<and> W \<le> 2 ^ 63)" "1 \<le> n" "rem \<le> W"
  shows "- 1 < guided_quot f rem n \<and> guided_quot f rem n < 2 ^ 64"
proof (cases "f = 0")
  case True
  then show ?thesis by (simp add: guided_quot_0)
next
  case False
  with assms(1) have f: "0 \<le> f" "f \<le> 1" and W: "W \<le> 2 ^ 63" by simp_all
  from assms(3) W have r: "rem \<le> 2 ^ 63" by (rule order_trans)
  note g = guided_quot_range[OF f r assms(2)]
  have "(2::real) ^ 63 < 2 ^ 64" by simp
  with g show ?thesis by linarith
qed

section \<open>Guided scheduling\<close>

text \<open>One call of \<open>getNext\<close>, then a whole run.\<close>

lemma dyn_done:
  "mode S = DYNAMIC \<Longrightarrow> nwork S \<le> cur S \<Longrightarrow> getNext S t = Inr (Range_empty, S)"
  by (simp add: getNext_def)

lemma dyn_take:
  assumes "mode S = DYNAMIC" "0 < nthreads S" "cur S < nwork S"
    "- 1 < dyn_quot S" "dyn_quot S < 2 ^ 64"
  shows "getNext S t =
           Inr (\<lparr>lo = cur S, hi = cur S + dyn_size S\<rparr>, S\<lparr>cur := cur S + dyn_size S\<rparr>)"
  using assms by (simp add: getNext_def dyn_size_def dyn_quot_def guided_quot_def Let_def)

lemma dyn_bad:
  assumes "mode S = DYNAMIC" "cur S < nwork S"
    "nthreads S = 0 \<or> dyn_quot S \<le> - 1 \<or> 2 ^ 64 \<le> dyn_quot S"
  shows "getNext S t = Inl BadConversion"
  using assms by (auto simp: getNext_def dyn_quot_def guided_quot_def Let_def)

lemma dyn_size_bounds:
  assumes "1 \<le> chunksize S" "cur S < nwork S"
  shows "1 \<le> dyn_size S" "cur S + dyn_size S \<le> nwork S"
proof -
  have "1 \<le> nwork S - cur S" using assms(2) by simp
  moreover have "1 \<le> max (chunksize S) k" for k using assms(1) by (simp add: max_def)
  ultimately show "1 \<le> dyn_size S" unfolding dyn_size_def by (rule min.boundedI)
  have "dyn_size S \<le> nwork S - cur S" unfolding dyn_size_def by (rule min.cobounded1)
  then show "cur S + dyn_size S \<le> nwork S" using assms(2) by simp
qed

lemma dyn_size_fixed:
  assumes "fact_max S = 0" "cur S + dyn_size S < nwork S"
  shows "dyn_size S = chunksize S"
  using assms by (simp add: dyn_size_def dyn_quot_def guided_quot_0 min_def split: if_splits)

lemma dyn_calls:
  assumes "mode S = DYNAMIC" "0 < nthreads S" "1 \<le> chunksize S" "cur S \<le> nwork S"
    and "\<forall>rem. 0 < rem \<and> rem \<le> nwork S \<longrightarrow>
           - 1 < guided_quot (fact_max S) rem (nthreads S) \<and>
           guided_quot (fact_max S) rem (nthreads S) < 2 ^ 64"
  shows "\<exists>rs S'. calls S ts = Inr (rs, S') \<and>
           concat (map (\<lambda>r. [lo r ..< hi r]) rs) = [cur S ..< cur S'] \<and>
           cur S \<le> cur S' \<and> cur S' \<le> nwork S \<and>
           min (nwork S) (cur S + length ts) \<le> cur S'"
  using assms
proof (induction ts arbitrary: S)
  case Nil
  then show ?case by simp
next
  case (Cons t ts)
  show ?case
  proof (cases "cur S < nwork S")
    case False
    with Cons.prems have eq: "cur S = nwork S" by simp
    then have g: "getNext S t = Inr (Range_empty, S)"
      using Cons.prems(1) by (simp add: dyn_done)
    from Cons.IH[OF Cons.prems] obtain rs S' where
      r: "calls S ts = Inr (rs, S')"
        "concat (map (\<lambda>r. [lo r ..< hi r]) rs) = [cur S ..< cur S']"
        "cur S \<le> cur S'" "cur S' \<le> nwork S"
      by blast
    have "calls S (t # ts) = Inr (Range_empty # rs, S')" using g r(1) by simp
    moreover have "concat (map (\<lambda>r. [lo r ..< hi r]) (Range_empty # rs)) = [cur S ..< cur S']"
      using r(2) by (simp add: Range_empty_def)
    moreover have "min (nwork S) (cur S + length (t # ts)) \<le> cur S'"
      using eq r(3) by simp
    ultimately show ?thesis using r(3,4) by blast
  next
    case True
    let ?S1 = "S\<lparr>cur := cur S + dyn_size S\<rparr>"
    note b = dyn_size_bounds[OF Cons.prems(3) True]
    have rem: "0 < nwork S - cur S \<and> nwork S - cur S \<le> nwork S" using True by simp
    from Cons.prems(5)[THEN spec, THEN mp, OF rem]
    have q: "- 1 < dyn_quot S" "dyn_quot S < 2 ^ 64" by (simp_all add: dyn_quot_def)
    have g: "getNext S t = Inr (\<lparr>lo = cur S, hi = cur S + dyn_size S\<rparr>, ?S1)"
      using Cons.prems(1,2) True q by (rule dyn_take)
    have "\<exists>rs S'. calls ?S1 ts = Inr (rs, S') \<and>
           concat (map (\<lambda>r. [lo r ..< hi r]) rs) = [cur ?S1 ..< cur S'] \<and>
           cur ?S1 \<le> cur S' \<and> cur S' \<le> nwork ?S1 \<and>
           min (nwork ?S1) (cur ?S1 + length ts) \<le> cur S'"
      using Cons.prems b by (intro Cons.IH) simp_all
    then obtain rs S' where
      r: "calls ?S1 ts = Inr (rs, S')"
        "concat (map (\<lambda>r. [lo r ..< hi r]) rs) = [cur S + dyn_size S ..< cur S']"
        "cur S + dyn_size S \<le> cur S'" "cur S' \<le> nwork S"
        "min (nwork S) (cur S + dyn_size S + length ts) \<le> cur S'"
      by auto
    have c: "calls S (t # ts) = Inr (\<lparr>lo = cur S, hi = cur S + dyn_size S\<rparr> # rs, S')"
      using g r(1) by simp
    have "[cur S ..< cur S + dyn_size S] @ [cur S + dyn_size S ..< cur S'] = [cur S ..< cur S']"
      using r(3) by (metis le_add1 upt_add_eq_append le_Suc_ex)
    then have cc: "concat (map (\<lambda>r. [lo r ..< hi r]) (\<lparr>lo = cur S, hi = cur S + dyn_size S\<rparr> # rs))
             = [cur S ..< cur S']"
      using r(2) by simp
    have m: "min (nwork S) (cur S + length (t # ts)) \<le> cur S'"
      using r(5) b(1) by simp
    from c cc m r(3,4) show ?thesis by auto
  qed
qed

lemma execDynamic_unfold:
  assumes n: "n = (if nthreads' = 0 then dn else nthreads')"
    and c: "c = (if chunksize_min' < 1 then 1 else chunksize_min')"
  shows "Distribution_execDynamic dn d W nthreads' chunksize_min' fact_max' =
           (if W \<le> (c * n) mod 2 ^ 64
            then Distribution_execStatic dn
                   (d\<lparr>mode := DYNAMIC, nthreads := n, nwork := W, chunksize := c\<rparr>)
                   W nthreads' 0
            else d\<lparr>mode := DYNAMIC, nthreads := n, nwork := W, chunksize := c,
                   fact_max := fact_max', cur := 0\<rparr>)"
  unfolding Distribution_execDynamic_def Let_def n c by simp

text \<open>The same for a number below \<open>2 ^ 53\<close> in magnitude, with its scale made explicit.\<close>

lemma to_double_scaled:
  assumes "2 powr of_int e \<le> \<bar>x\<bar>" "\<bar>x\<bar> < 2 powr of_int (e + 1)" "- 1022 \<le> e" "e \<le> 52"
  shows "to_double x = of_int (rne (x * 2 ^ nat (52 - e))) / 2 ^ nat (52 - e)"
proof -
  have r: "real (nat (52 - e)) = 52 - of_int e" using assms(4) by simp
  have "(2::real) powr (of_int e - 52) = 2 powr - real (nat (52 - e))"
    unfolding r by simp
  also have "\<dots> = inverse (2 powr real (nat (52 - e)))" by (rule powr_minus)
  also have "\<dots> = inverse (2 ^ nat (52 - e))" by (subst powr_realpow) simp_all
  finally have u: "(2::real) powr (of_int e - 52) = inverse (2 ^ nat (52 - e))" .
  show ?thesis
    unfolding to_double_eq[OF assms(1-3)] u by (simp add: divide_inverse)
qed

lemma to_double_three_tenths: "to_double (3 / 10) = 5404319552844595 / 18014398509481984"
proof -
  have "to_double (3 / 10) = of_int (rne (3 / 10 * 2 ^ nat (52 - (- 2)))) / 2 ^ nat (52 - (- 2))"
    by (rule to_double_scaled) (simp_all add: powr_neg_numeral)
  also have "\<dots> = 5404319552844595 / 18014398509481984"
    by (simp add: rne_def)
  finally show ?thesis .
qed

lemma to_double_small_nat:
  "to_double 1 = 1" "to_double 3 = 3" "to_double 8 = 8" "to_double 10 = 10"
  "to_double 250 = 250" "to_double 1000 = 1000"
proof -
  show "to_double 1 = 1"
    by (rule to_double_exact[where e = 0 and k = "2 ^ 52"]) (simp_all add: powr_neg_numeral)
  show "to_double 3 = 3"
    by (rule to_double_exact[where e = 1 and k = "3 * 2 ^ 51"]) (simp_all add: powr_neg_numeral)
  show "to_double 8 = 8"
    by (rule to_double_exact[where e = 3 and k = "2 ^ 52"]) (simp_all add: powr_neg_numeral)
  show "to_double 10 = 10"
    by (rule to_double_exact[where e = 3 and k = "10 * 2 ^ 49"]) (simp_all add: powr_neg_numeral)
  show "to_double 250 = 250"
    by (rule to_double_exact[where e = 7 and k = "250 * 2 ^ 45"]) (simp_all add: powr_neg_numeral)
  show "to_double 1000 = 1000"
    by (rule to_double_exact[where e = 9 and k = "1000 * 2 ^ 43"]) (simp_all add: powr_neg_numeral)
qed

lemma to_double_quarter: "to_double (125 / 4) = 125 / 4"
  by (rule to_double_exact[where e = 4 and k = "125 * 2 ^ 46"]) (simp_all add: powr_neg_numeral)

lemma to_double_near_three:
  "to_double (5404319552844595 / 18014398509481984 * 10) = 3"
proof -
  let ?x = "5404319552844595 / 18014398509481984 * 10 :: real"
  have "to_double ?x = of_int (rne (?x * 2 ^ nat (52 - 1))) / 2 ^ nat (52 - 1)"
    by (rule to_double_scaled) simp_all
  also have "\<dots> = 3" by (simp add: rne_def)
  finally show ?thesis .
qed

lemma dyn_quot_eq:
  "fact_max S = f \<Longrightarrow> nwork S - cur S = r \<Longrightarrow> nthreads S = n \<Longrightarrow>
   dyn_quot S = guided_quot f r n"
  by (simp add: dyn_quot_def)

lemma dyn_size_eq: "dyn_quot S = q \<Longrightarrow> nwork S - cur S = r \<Longrightarrow> chunksize S = c \<Longrightarrow>
   dyn_size S = min r (max c (nat \<lfloor>q\<rfloor>))"
  by (simp add: dyn_size_def)

text \<open>
  \<^verbatim>\<open>execStatic\<close> overwrites what \<^verbatim>\<open>execDynamic\<close> has set before handing on to it, and
  never leaves the mode \<^verbatim>\<open>DYNAMIC\<close>. With \<open>fact_max = 0\<close> the quotient is \<open>0\<close>.
\<close>

lemma execStatic_forgets:
  "Distribution_execStatic dn (d\<lparr>mode := md, nthreads := n, nwork := W', chunksize := c\<rparr>)
       W nthreads' chunksize'
     = Distribution_execStatic dn d W nthreads' chunksize'"
  by (simp add: Distribution_execStatic_def Distribution_execSingle_def Let_def)

lemma execStatic_mode: "mode (Distribution_execStatic dn d W nthreads' chunksize') \<noteq> DYNAMIC"
  by (simp add: Distribution_execStatic_def Distribution_execSingle_def Let_def)

lemma dyn_take_fixed:
  assumes "mode S = DYNAMIC" "0 < nthreads S" "fact_max S = 0" "cur S + chunksize S < nwork S"
  shows "getNext S t =
           Inr (\<lparr>lo = cur S, hi = cur S + chunksize S\<rparr>, S\<lparr>cur := cur S + chunksize S\<rparr>)"
proof -
  have q: "dyn_quot S = 0" using assms(3) by (simp add: dyn_quot_def guided_quot_0)
  have sz: "dyn_size S = chunksize S" using assms(4) by (simp add: dyn_size_def q)
  have "getNext S t =
           Inr (\<lparr>lo = cur S, hi = cur S + dyn_size S\<rparr>, S\<lparr>cur := cur S + dyn_size S\<rparr>)"
    by (rule dyn_take[OF assms(1,2)]) (use assms(4) q in simp_all)
  then show ?thesis unfolding sz .
qed

text \<open>
  Claim C6 gives the chunk size as \<open>min(rem, max(chunkMin, \<lfloor>fact_max rem / nthreads\<rfloor>))\<close>.
  The code forms the product and the quotient in \<^verbatim>\<open>double\<close>, rounding each. With
  \<open>fact_max\<close> the \<^verbatim>\<open>double\<close> nearest to \<open>0.3\<close>, which is a little below \<open>0.3\<close>, ten
  items and one worker, the product rounds to \<open>3\<close> and the first range is
  \<open>[0, 3)\<close>, where the formula of the claim, evaluated on the number that
  \<open>fact_max\<close> holds, gives a chunk of size \<open>2\<close>.
\<close>

theorem C6_quotient_rounded:
  "to_double (3 / 10) = 5404319552844595 / 18014398509481984 \<and>
   map_sum id fst
     (getNext (execGuided 1 \<lparr>nthreads = 0, nwork = 0, cur = 0, chunksize = 0, fact_max = 0,
                              nextstart = [], mode = SINGLE, single_done = False\<rparr>
                 10 1 1 (5404319552844595 / 18014398509481984)) 0)
     = Inr \<lparr>lo = 0, hi = 3\<rparr> \<and>
   min 10 (max 1 (nat \<lfloor>5404319552844595 / 18014398509481984 * 10 / 1 :: real\<rfloor>)) = (2 :: nat)"
proof -
  let ?f = "5404319552844595 / 18014398509481984 :: real"
  let ?U = "\<lparr>nthreads = 0, nwork = 0, cur = 0, chunksize = 0, fact_max = 0,
             nextstart = [], mode = SINGLE, single_done = False\<rparr>"
  let ?D = "\<lparr>nthreads = 1, nwork = 10, cur = 0, chunksize = 1, fact_max = ?f,
             nextstart = [], mode = DYNAMIC, single_done = False\<rparr>"
  have D: "execGuided 1 ?U 10 1 1 ?f = ?D"
    by (simp add: execGuided_def Distribution_execDynamic_def Distribution_new_def Let_def)
  have r10: "real (10::nat) = 10" and r1: "real (1::nat) = 1" by simp_all
  have "guided_quot ?f 10 1 = to_double (to_double (?f * to_double 10) / to_double 1)"
    by (simp only: guided_quot_def r10 r1)
  also have "\<dots> = 3"
    by (simp only: to_double_small_nat to_double_near_three div_by_1)
  finally have gq: "guided_quot ?f 10 1 = 3" .
  have fl: "fact_max ?D = ?f" "nwork ?D - cur ?D = 10" "nthreads ?D = 1" "chunksize ?D = 1"
    "mode ?D = DYNAMIC" "0 < nthreads ?D" "cur ?D < nwork ?D"
    by simp_all
  have q: "dyn_quot ?D = 3"
    unfolding gq[symmetric] using fl(1,2,3) by (rule dyn_quot_eq)
  have "dyn_size ?D = min 10 (max 1 (nat \<lfloor>3 :: real\<rfloor>))"
    using q fl(2,4) by (rule dyn_size_eq)
  then have sz: "dyn_size ?D = 3" by simp
  have q1: "- 1 < dyn_quot ?D" and q2: "dyn_quot ?D < 2 ^ 64" unfolding q by simp_all
  have "getNext ?D 0 = Inr (\<lparr>lo = cur ?D, hi = cur ?D + dyn_size ?D\<rparr>,
                             ?D\<lparr>cur := cur ?D + dyn_size ?D\<rparr>)"
    using fl(5,6,7) q1 q2 by (rule dyn_take)
  then have g: "map_sum id fst (getNext (execGuided 1 ?U 10 1 1 ?f) 0) = Inr \<lparr>lo = 0, hi = 3\<rparr>"
    unfolding D sz by simp
  have c: "min 10 (max 1 (nat \<lfloor>?f * 10 / 1\<rfloor>)) = (2 :: nat)" by simp
  from to_double_three_tenths g c show ?thesis by (intro conjI)
qed

text \<open>
  Claim C6, amended. Let \<open>n\<close> be the number of workers and \<open>c\<close> the minimal chunk
  size in effect (\<^verbatim>\<open>execDynamic\<close> replaces \<open>0\<close> by the default, respectively by \<open>1\<close>).
  When the product \<open>c n\<close>, taken in \<^verbatim>\<open>size_t\<close>, is at least \<open>W\<close>, the scheduler is left in
  the state that \<^verbatim>\<open>execStatic\<close> with chunk size \<open>0\<close> sets up, and its mode is not
  \<^verbatim>\<open>DYNAMIC\<close>. Otherwise scheduling is \<^verbatim>\<open>DYNAMIC\<close> from position \<open>0\<close>. A call of
  \<open>getNext\<close> with no work left returns the empty range. A call with work left,
  for which the quotient computed in \<^verbatim>\<open>double\<close> lies between \<open>-1\<close> and \<open>2 ^ 64\<close>,
  returns the next \<open>dyn_size\<close> items, the size computed from that quotient, and
  advances the position by as many; when the quotient lies outside, the
  conversion to \<^verbatim>\<open>size_t\<close> is undefined. With \<open>fact_max = 0\<close> a call with more than
  the chunk size left returns the next chunk of exactly that size. If the quotient lies within these bounds for every amount of
  work left, then in every run the ranges handed out follow one another from \<open>0\<close>
  without gap or overlap and exhaust \<open>[0, W)\<close> after at most \<open>W\<close> calls; and it
  does lie within them when \<open>fact_max = 0\<close>, and when \<open>0 \<le> fact_max \<le> 1\<close> and
  \<open>W \<le> 2 ^ 63\<close>.
\<close>

theorem C6_dynamic_schedule:
  assumes dn: "1 \<le> dn"
    and n: "n = (if nthreads' = 0 then dn else nthreads')"
    and c: "c = (if chunksize_min' < 1 then 1 else chunksize_min')"
    and D: "D = Distribution_execDynamic dn d W nthreads' chunksize_min' fact_max'"
  shows "(W \<le> (c * n) mod 2 ^ 64 \<longrightarrow>
            D = Distribution_execStatic dn d W nthreads' 0 \<and> mode D \<noteq> DYNAMIC) \<and>
         ((c * n) mod 2 ^ 64 < W \<longrightarrow>
            mode D = DYNAMIC \<and> nthreads D = n \<and> nwork D = W \<and> chunksize D = c \<and>
            fact_max D = fact_max' \<and> cur D = 0) \<and>
         (\<forall>S t. mode S = DYNAMIC \<and> nwork S \<le> cur S \<longrightarrow>
            getNext S t = Inr (Range_empty, S)) \<and>
         (\<forall>S t. mode S = DYNAMIC \<and> 0 < nthreads S \<and> cur S < nwork S \<and>
                 - 1 < dyn_quot S \<and> dyn_quot S < 2 ^ 64 \<longrightarrow>
            getNext S t =
              Inr (\<lparr>lo = cur S, hi = cur S + dyn_size S\<rparr>, S\<lparr>cur := cur S + dyn_size S\<rparr>)) \<and>
         (\<forall>S t. mode S = DYNAMIC \<and> cur S < nwork S \<and>
                 (nthreads S = 0 \<or> dyn_quot S \<le> - 1 \<or> 2 ^ 64 \<le> dyn_quot S) \<longrightarrow>
            getNext S t = Inl BadConversion) \<and>
         (\<forall>S t. mode S = DYNAMIC \<and> 0 < nthreads S \<and> fact_max S = 0 \<and>
                 cur S + chunksize S < nwork S \<longrightarrow>
            getNext S t =
              Inr (\<lparr>lo = cur S, hi = cur S + chunksize S\<rparr>,
                   S\<lparr>cur := cur S + chunksize S\<rparr>)) \<and>
         ((c * n) mod 2 ^ 64 < W \<and>
          (\<forall>rem. 0 < rem \<and> rem \<le> W \<longrightarrow>
             - 1 < guided_quot fact_max' rem n \<and> guided_quot fact_max' rem n < 2 ^ 64) \<longrightarrow>
            (\<forall>ts. \<exists>rs D'. calls D ts = Inr (rs, D') \<and>
               concat (map (\<lambda>r. [lo r ..< hi r]) rs) = [0 ..< cur D'] \<and>
               cur D' \<le> W \<and> min W (length ts) \<le> cur D')) \<and>
         (fact_max' = 0 \<or> (0 \<le> fact_max' \<and> fact_max' \<le> 1 \<and> W \<le> 2 ^ 63) \<longrightarrow>
            (\<forall>rem. 0 < rem \<and> rem \<le> W \<longrightarrow>
               - 1 < guided_quot fact_max' rem n \<and> guided_quot fact_max' rem n < 2 ^ 64))"
proof -
  have npos: "0 < n" using dn n by (simp split: if_splits)
  have cpos: "1 \<le> c" using c by (simp split: if_splits)
  have c1: "W \<le> (c * n) mod 2 ^ 64 \<longrightarrow>
            D = Distribution_execStatic dn d W nthreads' 0 \<and> mode D \<noteq> DYNAMIC"
  proof
    assume "W \<le> (c * n) mod 2 ^ 64"
    then have "D = Distribution_execStatic dn
                  (d\<lparr>mode := DYNAMIC, nthreads := n, nwork := W, chunksize := c\<rparr>)
                  W nthreads' 0"
      unfolding D by (simp only: execDynamic_unfold[OF n c] if_True)
    then have e: "D = Distribution_execStatic dn d W nthreads' 0"
      by (simp only: execStatic_forgets)
    have "mode D \<noteq> DYNAMIC" unfolding e by (rule execStatic_mode)
    with e show "D = Distribution_execStatic dn d W nthreads' 0 \<and> mode D \<noteq> DYNAMIC" ..
  qed
  have dyn: "D = d\<lparr>mode := DYNAMIC, nthreads := n, nwork := W, chunksize := c,
                   fact_max := fact_max', cur := 0\<rparr>" if "(c * n) mod 2 ^ 64 < W"
  proof -
    from that have "\<not> W \<le> (c * n) mod 2 ^ 64" by simp
    then show ?thesis unfolding D by (simp only: execDynamic_unfold[OF n c] if_False)
  qed
  have c2: "(c * n) mod 2 ^ 64 < W \<longrightarrow>
            mode D = DYNAMIC \<and> nthreads D = n \<and> nwork D = W \<and> chunksize D = c \<and>
            fact_max D = fact_max' \<and> cur D = 0"
    using dyn by simp
  have c3: "\<forall>S t. mode S = DYNAMIC \<and> nwork S \<le> cur S \<longrightarrow>
            getNext S t = Inr (Range_empty, S)"
    by (simp add: dyn_done)
  have c4: "\<forall>S t. mode S = DYNAMIC \<and> 0 < nthreads S \<and> cur S < nwork S \<and>
                 - 1 < dyn_quot S \<and> dyn_quot S < 2 ^ 64 \<longrightarrow>
            getNext S t =
              Inr (\<lparr>lo = cur S, hi = cur S + dyn_size S\<rparr>, S\<lparr>cur := cur S + dyn_size S\<rparr>)"
    by (intro allI impI) (elim conjE, rule dyn_take)
  have c4': "\<forall>S t. mode S = DYNAMIC \<and> cur S < nwork S \<and>
                 (nthreads S = 0 \<or> dyn_quot S \<le> - 1 \<or> 2 ^ 64 \<le> dyn_quot S) \<longrightarrow>
            getNext S t = Inl BadConversion"
    by (intro allI impI) (elim conjE, rule dyn_bad)
  have c5: "\<forall>S t. mode S = DYNAMIC \<and> 0 < nthreads S \<and> fact_max S = 0 \<and>
                 cur S + chunksize S < nwork S \<longrightarrow>
            getNext S t =
              Inr (\<lparr>lo = cur S, hi = cur S + chunksize S\<rparr>,
                   S\<lparr>cur := cur S + chunksize S\<rparr>)"
    by (intro allI impI) (elim conjE, rule dyn_take_fixed)
  have run: "\<exists>rs D'. calls D ts = Inr (rs, D') \<and>
               concat (map (\<lambda>r. [lo r ..< hi r]) rs) = [0 ..< cur D'] \<and>
               cur D' \<le> W \<and> min W (length ts) \<le> cur D'"
    if lt: "(c * n) mod 2 ^ 64 < W"
      and df: "\<forall>rem. 0 < rem \<and> rem \<le> W \<longrightarrow>
             - 1 < guided_quot fact_max' rem n \<and> guided_quot fact_max' rem n < 2 ^ 64"
    for ts
  proof -
    note e = dyn[OF lt]
    have f: "mode D = DYNAMIC" "nthreads D = n" "nwork D = W" "chunksize D = c"
      "fact_max D = fact_max'" "cur D = 0" using e by simp_all
    have "\<exists>rs S'. calls D ts = Inr (rs, S') \<and>
           concat (map (\<lambda>r. [lo r ..< hi r]) rs) = [cur D ..< cur S'] \<and>
           cur D \<le> cur S' \<and> cur S' \<le> nwork D \<and>
           min (nwork D) (cur D + length ts) \<le> cur S'"
    proof (rule dyn_calls)
      show "mode D = DYNAMIC" by (rule f(1))
      show "0 < nthreads D" unfolding f(2) by (rule npos)
      show "1 \<le> chunksize D" unfolding f(4) by (rule cpos)
      show "cur D \<le> nwork D" unfolding f(6) by simp
      show "\<forall>rem. 0 < rem \<and> rem \<le> nwork D \<longrightarrow>
           - 1 < guided_quot (fact_max D) rem (nthreads D) \<and>
           guided_quot (fact_max D) rem (nthreads D) < 2 ^ 64"
        unfolding f(2,3,5) by (rule df)
    qed
    then show ?thesis unfolding f(3,6) by simp
  qed
  have c6: "(c * n) mod 2 ^ 64 < W \<and>
          (\<forall>rem. 0 < rem \<and> rem \<le> W \<longrightarrow>
             - 1 < guided_quot fact_max' rem n \<and> guided_quot fact_max' rem n < 2 ^ 64) \<longrightarrow>
            (\<forall>ts. \<exists>rs D'. calls D ts = Inr (rs, D') \<and>
               concat (map (\<lambda>r. [lo r ..< hi r]) rs) = [0 ..< cur D'] \<and>
               cur D' \<le> W \<and> min W (length ts) \<le> cur D')"
    by (intro allI impI, elim conjE, rule run)
  have c7: "fact_max' = 0 \<or> (0 \<le> fact_max' \<and> fact_max' \<le> 1 \<and> W \<le> 2 ^ 63) \<longrightarrow>
            (\<forall>rem. 0 < rem \<and> rem \<le> W \<longrightarrow>
               - 1 < guided_quot fact_max' rem n \<and> guided_quot fact_max' rem n < 2 ^ 64)"
  proof (intro allI impI, elim conjE)
    fix rem assume a: "fact_max' = 0 \<or> (0 \<le> fact_max' \<and> fact_max' \<le> 1 \<and> W \<le> 2 ^ 63)"
      and r: "rem \<le> W"
    have "1 \<le> n" using npos by simp
    with a show "- 1 < guided_quot fact_max' rem n \<and> guided_quot fact_max' rem n < 2 ^ 64"
      using r by (rule guided_quot_defined)
  qed
  show ?thesis
    by (rule conjI[OF c1 conjI[OF c2 conjI[OF c3 conjI[OF c4 conjI[OF c4' conjI[OF c5
          conjI[OF c6 c7]]]]]]])
qed

theorem C6_dynamic_schedule_witness:
  "(1::nat) \<le> 4 \<and>
   mode (Distribution_execDynamic 4
           \<lparr>nthreads = 0, nwork = 0, cur = 0, chunksize = 0, fact_max = 0,
              nextstart = [], mode = SINGLE, single_done = False\<rparr> 1000 8 1 (1 / 4)) = DYNAMIC \<and>
   map_sum id fst (getNext (Distribution_execDynamic 4
           \<lparr>nthreads = 0, nwork = 0, cur = 0, chunksize = 0, fact_max = 0,
              nextstart = [], mode = SINGLE, single_done = False\<rparr> 1000 8 1 (1 / 4)) 0)
     = Inr \<lparr>lo = 0, hi = 31\<rparr> \<and>
   (\<exists>rs D'. calls (Distribution_execDynamic 4
           \<lparr>nthreads = 0, nwork = 0, cur = 0, chunksize = 0, fact_max = 0,
              nextstart = [], mode = SINGLE, single_done = False\<rparr> 1000 8 1 (1 / 4)) [0, 1]
         = Inr (rs, D') \<and>
      concat (map (\<lambda>r. [lo r ..< hi r]) rs) = [0 ..< cur D'] \<and> 2 \<le> cur D') \<and>
   map_sum id fst
     (getNext \<lparr>nthreads = 8, nwork = 1000, cur = 0, chunksize = 3, fact_max = 0,
                nextstart = [], mode = DYNAMIC, single_done = False\<rparr> 5)
     = Inr \<lparr>lo = 0, hi = 3\<rparr>"
proof -
  let ?U = "\<lparr>nthreads = 0, nwork = 0, cur = 0, chunksize = 0, fact_max = 0,
              nextstart = [], mode = SINGLE, single_done = False\<rparr>"
  let ?D = "Distribution_execDynamic 4 ?U 1000 8 1 (1 / 4)"
  let ?S = "\<lparr>nthreads = 8, nwork = 1000, cur = 0, chunksize = 3, fact_max = 0,
              nextstart = [], mode = DYNAMIC, single_done = False\<rparr>"
  have h1: "(1::nat) \<le> 4" by simp
  have h3: "(8::nat) = (if (8::nat) = 0 then 4 else 8)" by simp
  have h4: "(1::nat) = (if (1::nat) < 1 then 1 else 1)" by simp
  note th = C6_dynamic_schedule[OF h1 h3 h4 refl, where d = ?U and W = 1000
              and fact_max' = "1 / 4"]
  note c2 = th[THEN conjunct2, THEN conjunct1]
  note c4 = th[THEN conjunct2, THEN conjunct2, THEN conjunct2, THEN conjunct1]
  note c5 = th[THEN conjunct2, THEN conjunct2, THEN conjunct2, THEN conjunct2, THEN conjunct2,
               THEN conjunct1]
  note c6 = th[THEN conjunct2, THEN conjunct2, THEN conjunct2, THEN conjunct2, THEN conjunct2,
               THEN conjunct2, THEN conjunct1]
  note c7 = th[THEN conjunct2, THEN conjunct2, THEN conjunct2, THEN conjunct2, THEN conjunct2,
               THEN conjunct2, THEN conjunct2]
  have lt: "((1::nat) * 8) mod 2 ^ 64 < 1000" by simp
  note f = c2[THEN mp, OF lt]
  have m: "mode ?D = DYNAMIC" "nthreads ?D = 8" "nwork ?D = 1000" "chunksize ?D = 1"
    "fact_max ?D = 1 / 4" "cur ?D = 0"
    using f by simp_all
  have r1000: "real (1000::nat) = 1000" and r8: "real (8::nat) = 8" by simp_all
  have "guided_quot (1 / 4) 1000 8 = to_double (to_double (1 / 4 * to_double 1000) / to_double 8)"
    by (simp only: guided_quot_def r1000 r8)
  also have "\<dots> = to_double (to_double 250 / 8)"
    by (simp add: to_double_small_nat)
  also have "\<dots> = 125 / 4"
    by (simp add: to_double_small_nat to_double_quarter)
  finally have gq: "guided_quot (1 / 4) 1000 8 = 125 / 4" .
  have rm: "nwork ?D - cur ?D = 1000" unfolding m by simp
  have q: "dyn_quot ?D = 125 / 4"
    unfolding gq[symmetric] using m(5) rm m(2) by (rule dyn_quot_eq)
  have "dyn_size ?D = min 1000 (max 1 (nat \<lfloor>125 / 4 :: real\<rfloor>))"
    using q rm m(4) by (rule dyn_size_eq)
  then have sz: "dyn_size ?D = 31" by simp
  have pre: "mode ?D = DYNAMIC \<and> 0 < nthreads ?D \<and> cur ?D < nwork ?D \<and>
             - 1 < dyn_quot ?D \<and> dyn_quot ?D < 2 ^ 64"
    unfolding m q by simp
  have g: "getNext ?D 0 = Inr (\<lparr>lo = cur ?D, hi = cur ?D + dyn_size ?D\<rparr>,
                                ?D\<lparr>cur := cur ?D + dyn_size ?D\<rparr>)"
    by (rule c4[THEN spec[where x = ?D], THEN spec[where x = 0], THEN mp, OF pre])
  have g': "map_sum id fst (getNext ?D 0) = Inr \<lparr>lo = 0, hi = 31\<rparr>"
    unfolding g sz m by simp
  have suff: "(1 / 4 :: real) = 0 \<or> (0 \<le> (1 / 4 :: real) \<and> (1 / 4 :: real) \<le> 1 \<and>
                (1000::nat) \<le> 2 ^ 63)" by simp
  note df = c7[THEN mp, OF suff]
  have run: "\<exists>rs D'. calls ?D [0, 1] = Inr (rs, D') \<and>
      concat (map (\<lambda>r. [lo r ..< hi r]) rs) = [0 ..< cur D'] \<and>
      cur D' \<le> 1000 \<and> min 1000 (length [0, 1::nat]) \<le> cur D'"
    by (rule c6[THEN mp, OF conjI[OF lt df], THEN spec[where x = "[0, 1]"]])
  have run': "\<exists>rs D'. calls ?D [0, 1] = Inr (rs, D') \<and>
      concat (map (\<lambda>r. [lo r ..< hi r]) rs) = [0 ..< cur D'] \<and> 2 \<le> cur D'"
  proof -
    have w: "(\<exists>rs D'. calls X ts = Inr (rs, D') \<and> F rs = [0 ..< cur D'] \<and> cur D' \<le> 1000 \<and>
                min 1000 (length [0, 1::nat]) \<le> cur D') \<Longrightarrow>
             (\<exists>rs D'. calls X ts = Inr (rs, D') \<and> F rs = [0 ..< cur D'] \<and> 2 \<le> cur D')"
      for X ts and F :: "Range list \<Rightarrow> nat list"
      by auto
    from w[OF run] show ?thesis .
  qed
  have pre5: "mode ?S = DYNAMIC \<and> 0 < nthreads ?S \<and> fact_max ?S = 0 \<and>
              cur ?S + chunksize ?S < nwork ?S"
    by simp
  have fx: "getNext ?S 5 = Inr (\<lparr>lo = cur ?S, hi = cur ?S + chunksize ?S\<rparr>,
                                ?S\<lparr>cur := cur ?S + chunksize ?S\<rparr>)"
    by (rule c5[THEN spec[where x = ?S], THEN spec[where x = 5], THEN mp, OF pre5])
  have fx': "map_sum id fst (getNext ?S 5) = Inr \<lparr>lo = 0, hi = 3\<rparr>"
    unfolding fx by simp
  from h1 m(1) g' run' fx' show ?thesis by (intro conjI)
qed

section \<open>Operations on the store\<close>

text \<open>
  Rules for \<open>for_loop\<close>: what every round preserves, success under an invariant,
  the origin of a failure, and failure at a given round.
\<close>

lemma for_loop_preserves:
  assumes "for_loop i n body s = Inr s'" "P s"
    and "\<And>j t t'. i \<le> j \<Longrightarrow> j < n \<Longrightarrow> P t \<Longrightarrow> body j t = Inr t' \<Longrightarrow> P t'"
  shows "P s'"
  using assms
proof (induction i n body s rule: for_loop.induct)
  case (1 i n body s)
  note eq = for_loop.simps[of i n body s]
  show ?case
  proof (cases "i < n")
    case False
    with "1.prems"(1) have "s' = s" unfolding eq by simp
    with "1.prems"(2) show ?thesis by simp
  next
    case True
    with "1.prems"(1) have c: "(case body i s of Inl e \<Rightarrow> Inl e
        | Inr s1 \<Rightarrow> for_loop (Suc i) n body s1) = Inr s'"
      unfolding eq by simp
    then obtain s1 where b: "body i s = Inr s1"
      and r: "for_loop (Suc i) n body s1 = Inr s'"
      by (cases "body i s") simp_all
    have p1: "P s1" using "1.prems"(3)[OF _ True "1.prems"(2) b] by simp
    show ?thesis
    proof (rule "1.IH"[OF True b r p1])
      fix j t t' assume "Suc i \<le> j" "j < n" "P t" "body j t = Inr t'"
      then show "P t'" using "1.prems"(3)[of j t t'] by simp
    qed
  qed
qed

lemma for_loop_total:
  assumes "I i s" "i \<le> n"
    and "\<And>j t. i \<le> j \<Longrightarrow> j < n \<Longrightarrow> I j t \<Longrightarrow> \<exists>t'. body j t = Inr t' \<and> I (Suc j) t'"
  shows "\<exists>s'. for_loop i n body s = Inr s' \<and> I n s'"
  using assms
proof (induction i n body s rule: for_loop.induct)
  case (1 i n body s)
  show ?case
  proof (cases "i < n")
    case False
    with "1.prems"(2) have "i = n" by simp
    with "1.prems"(1) show ?thesis by (simp add: for_loop.simps[of n n])
  next
    case True
    from "1.prems"(3)[OF _ True "1.prems"(1)] obtain s1 where
      b: "body i s = Inr s1" and i1: "I (Suc i) s1" by auto
    have "\<exists>s'. for_loop (Suc i) n body s1 = Inr s' \<and> I n s'"
    proof (rule "1.IH"[OF True b i1])
      show "Suc i \<le> n" using True by simp
      fix j t assume "Suc i \<le> j" "j < n" "I j t"
      then show "\<exists>t'. body j t = Inr t' \<and> I (Suc j) t'" using "1.prems"(3)[of j t] by simp
    qed
    then show ?thesis using True b by (simp add: for_loop.simps[of i n])
  qed
qed

lemma for_loop_error:
  assumes "for_loop i n body s = Inl e"
  shows "\<exists>j t. body j t = Inl e"
  using assms
proof (induction i n body s rule: for_loop.induct)
  case (1 i n body s)
  note eq = for_loop.simps[of i n body s]
  from "1.prems" have lt: "i < n" unfolding eq by (simp split: if_splits)
  show ?case
  proof (cases "body i s")
    case (Inl e')
    with "1.prems" lt have "e' = e" unfolding eq by simp
    with Inl show ?thesis by blast
  next
    case (Inr s1)
    with "1.prems" lt have "for_loop (Suc i) n body s1 = Inl e" unfolding eq by simp
    from "1.IH"[OF lt Inr this] show ?thesis .
  qed
qed

lemma for_loop_split:
  "a \<le> k \<Longrightarrow> k \<le> n \<Longrightarrow>
   for_loop a n body t =
     (case for_loop a k body t of Inl e \<Rightarrow> Inl e | Inr t' \<Rightarrow> for_loop k n body t')"
proof (induction a k body t rule: for_loop.induct)
  case (1 a k body t)
  show ?case
  proof (cases "a < k")
    case False
    with "1.prems" have "a = k" by simp
    then show ?thesis by (simp add: for_loop.simps[of k k])
  next
    case True
    then have an: "a < n" using "1.prems"(2) by simp
    show ?thesis
    proof (cases "body a t")
      case (Inl e')
      then show ?thesis using True an
        by (simp add: for_loop.simps[of a n] for_loop.simps[of a k])
    next
      case (Inr t1)
      from "1.IH"[OF True Inr _ "1.prems"(2)] True have
        "for_loop (Suc a) n body t1 =
           (case for_loop (Suc a) k body t1 of Inl e \<Rightarrow> Inl e | Inr t' \<Rightarrow> for_loop k n body t')"
        by simp
      then show ?thesis using True an Inr
        by (simp add: for_loop.simps[of a n] for_loop.simps[of a k])
    qed
  qed
qed

lemma for_loop_fails:
  assumes "I i s" "i \<le> k" "k < n"
    and "\<And>j t. i \<le> j \<Longrightarrow> j < k \<Longrightarrow> I j t \<Longrightarrow> \<exists>t'. body j t = Inr t' \<and> I (Suc j) t'"
    and "\<And>t. I k t \<Longrightarrow> body k t = Inl e"
  shows "for_loop i n body s = Inl e"
proof -
  from for_loop_total[where I = I and body = body, OF assms(1,2) assms(4)]
  obtain s' where r: "for_loop i k body s = Inr s'" and I: "I k s'" by blast
  have "k \<le> n" using assms(3) by simp
  from for_loop_split[OF assms(2) this, of body s] r
  have "for_loop i n body s = for_loop k n body s'" by simp
  also have "\<dots> = Inl e"
    using assms(3) assms(5)[OF I] by (simp add: for_loop.simps[of k n])
  finally show ?thesis .
qed
















section \<open>Stores made by the constructor\<close>

lemma wrapped_Suc: "M < (M + 1) mod 2 ^ 64 \<Longrightarrow> M + 1 < (2 ^ 64 :: nat)"
proof (rule ccontr)
  assume a: "M < (M + 1) mod 2 ^ 64" and "\<not> M + 1 < (2 ^ 64 :: nat)"
  then have ge: "(2 ^ 64 :: nat) \<le> M + 1" by simp
  then have "(M + 1) mod 2 ^ 64 = (M + 1 - 2 ^ 64) mod 2 ^ 64" by (rule le_mod_geq)
  also have "\<dots> \<le> M + 1 - 2 ^ 64" by (rule mod_less_eq_dividend)
  finally have le: "(M + 1) mod 2 ^ 64 \<le> M + 1 - 2 ^ 64" .
  from a le have "M < M + 1 - 2 ^ 64" by (rule less_le_trans)
  then show False by simp
qed

text \<open>What a successful construction tells about the store, wrap-around or not.\<close>

lemma Alm_data_base:
  assumes "Alm_data data L M = Inr A"
  shows "M \<le> L" "M + 1 < 2 ^ 64" "lmax A = L" "mval A = [0 ..< Suc M]"
    "length (mstart A) = Suc M"
    "\<forall>m\<le>M. mstart A ! m = ptrdiff_t (colstart L m - int m)"
    "alm A = data" "Num_Alms L M = Inr (length data)" "arrsize A = length data"
proof -
  from assms obtain b where b: "Alm_Base_lmax_mmax L M = Inr b"
    by (cases "Alm_Base_lmax_mmax L M") (simp_all add: Alm_data_def)
  then obtain r where r: "dense_loop L M 0 0
      (replicate (size_t (int M + 1)) 0, replicate (size_t (int M + 1)) 0) = Inr r"
    by (cases "dense_loop L M 0 0
      (replicate (size_t (int M + 1)) 0, replicate (size_t (int M + 1)) 0)")
      (simp_all add: Alm_Base_lmax_mmax_def)
  from b r obtain n0 where "Num_Alms L M = Inr n0"
    by (cases "Num_Alms L M") (simp_all add: Alm_Base_lmax_mmax_def split: prod.splits)
  then show MleL: "M \<le> L" by (simp add: Num_Alms_def split: if_splits)
  have "M < length (replicate (size_t (int M + 1)) (0::nat))"
    using r by (rule dense_loop_fits) simp
  then have "M < (M + 1) mod 2 ^ 64"
    by (simp add: size_t_def nat_mod_distrib nat_add_distrib nat_power_eq)
  then show S: "M + 1 < 2 ^ 64" by (rule wrapped_Suc)
  from dense_base[OF MleL S] b obtain n where d: "Num_Alms L M = Inr n" "lmax b = L"
    "arrsize b = n" "mval b = [0 ..< Suc M]" "length (mstart b) = Suc M"
    "\<forall>m\<le>M. mstart b ! m = ptrdiff_t (colstart L m - int m)" by auto
  from assms b d(1,2) have len: "length data = n"
    by (simp add: Alm_data_def split: if_splits)
  with assms b d(1,2)
  have A: "A = \<lparr>lmax = lmax b, arrsize = arrsize b, mval = mval b, mstart = mstart b, alm = data\<rparr>"
    by (simp add: Alm_data_def)
  show "lmax A = L" "mval A = [0 ..< Suc M]" "length (mstart A) = Suc M"
    "\<forall>m\<le>M. mstart A ! m = ptrdiff_t (colstart L m - int m)" "alm A = data"
    "Num_Alms L M = Inr (length data)" "arrsize A = length data"
    unfolding A using d len by simp_all
qed


lemma Alm_data_dense:
  assumes "Alm_data data L M = Inr A" "no_wrap L M"
  shows "dense_store L M A"
proof -
  note b = Alm_data_base[OF assms(1)]
  from Num_Alms_exact[OF b(1) assms(2)] b(8)
  have len: "length data = coeff_count L M" by (simp add: coeff_count_def)
  have "coeff_count L M < 2 ^ 64" using assms(2) by (simp add: no_wrap_def)
  then show ?thesis
    unfolding dense_store_def using b(1,3,4,5,6,7) len by simp
qed

text \<open>Access to a store with the dense layout.\<close>

lemma dense_index_slot:
  assumes "dense_store L M A" "m \<le> M" "m \<le> l" "l \<le> L"
  shows "index A l m = Inr (slot L l m)" "slot L l m < length (alm A)"
proof -
  from assms(1) have d: "M \<le> L" "lmax A = L" "length (mstart A) = Suc M"
    "\<forall>m\<le>M. mstart A ! m = ptrdiff_t (colstart L m - int m)"
    "length (alm A) = coeff_count L M" "coeff_count L M < 2 ^ 64"
    by (simp_all add: dense_store_def)
  show "index A l m = Inr (slot L l m)"
    using d(3,4) d(6)[unfolded coeff_count_def] d(1) assms(2-4) by (rule dense_index)
  show "slot L l m < length (alm A)"
    using slot_bound(2)[OF d(1) assms(2-4)] unfolding d(5) coeff_count_def .
qed

lemma dense_get:
  assumes "dense_store L M A" "m \<le> M" "m \<le> l" "l \<le> L"
  shows "Alm_get A l m = Inr (alm A ! slot L l m)"
  using dense_index_slot[OF assms] by (simp add: Alm_get_def mav_get_def)

lemma dense_put:
  assumes "dense_store L M A" "m \<le> M" "m \<le> l" "l \<le> L"
  shows "Alm_put A l m x = Inr (A\<lparr>alm := (alm A)[slot L l m := x]\<rparr>)"
    and "dense_store L M (A\<lparr>alm := (alm A)[slot L l m := x]\<rparr>)"
proof -
  show "Alm_put A l m x = Inr (A\<lparr>alm := (alm A)[slot L l m := x]\<rparr>)"
    using dense_index_slot[OF assms] by (simp add: Alm_put_def mav_set_def)
  show "dense_store L M (A\<lparr>alm := (alm A)[slot L l m := x]\<rparr>)"
    using assms(1) by (simp add: dense_store_def)
qed

lemma dense_same_layout:
  assumes "dense_store L M A" "dense_store L M A'"
  shows "lmax A' = lmax A \<and> mval A' = mval A \<and> mstart A' = mstart A \<and>
         length (alm A') = length (alm A)"
proof -
  have "mstart A' = mstart A"
  proof (rule nth_equalityI)
    show "length (mstart A') = length (mstart A)" using assms by (simp add: dense_store_def)
    fix i assume "i < length (mstart A')"
    then have "i \<le> M" using assms(2) by (simp add: dense_store_def)
    then show "mstart A' ! i = mstart A ! i" using assms by (simp add: dense_store_def)
  qed
  then show ?thesis using assms by (simp add: dense_store_def)
qed

text \<open>
  One column of the iteration helper on a dense store: every coefficient of
  column \<open>m\<close> is replaced by its image under the callback, every other one is
  kept.
\<close>

lemma column_spec:
  assumes d: "dense_store L M A1" and m: "m \<le> M"
  shows "\<exists>A2. for_loop m (L + 1)
                 (\<lambda>l A2. case Alm_get A2 l m of Inl e \<Rightarrow> Inl e
                           | Inr v \<Rightarrow> Alm_put A2 l m (func l m v)) A1 = Inr A2 \<and>
              dense_store L M A2 \<and>
              (\<forall>m' l'. m' \<le> M \<and> m' \<le> l' \<and> l' \<le> L \<longrightarrow>
                 alm A2 ! slot L l' m' =
                   (if m' = m then func l' m' (alm A1 ! slot L l' m')
                    else alm A1 ! slot L l' m'))"
proof -
  from d have MleL: "M \<le> L" by (simp add: dense_store_def)
  let ?body = "\<lambda>l A2. case Alm_get A2 l m of Inl e \<Rightarrow> Inl e
                           | Inr v \<Rightarrow> Alm_put A2 l m (func l m v)"
  let ?I = "\<lambda>l A2. dense_store L M A2 \<and>
              (\<forall>m' l'. m' \<le> M \<and> m' \<le> l' \<and> l' \<le> L \<longrightarrow>
                 alm A2 ! slot L l' m' =
                   (if m' = m \<and> l' < l then func l' m' (alm A1 ! slot L l' m')
                    else alm A1 ! slot L l' m'))"
  have "\<exists>A2. for_loop m (L + 1) ?body A1 = Inr A2 \<and> ?I (L + 1) A2"
  proof (rule for_loop_total[where I = ?I])
    show "?I m A1" using d by auto
    show "m \<le> L + 1" using m MleL by simp
    fix l and A2 :: "'a Alm"
    assume l: "m \<le> l" "l < L + 1" and I: "?I l A2"
    then have lL: "l \<le> L" by simp
    from I have d2: "dense_store L M A2" by blast
    from I have v2: "\<And>m' l'. m' \<le> M \<Longrightarrow> m' \<le> l' \<Longrightarrow> l' \<le> L \<Longrightarrow>
                 alm A2 ! slot L l' m' =
                   (if m' = m \<and> l' < l then func l' m' (alm A1 ! slot L l' m')
                    else alm A1 ! slot L l' m')" by blast
    let ?x = "func l m (alm A2 ! slot L l m)"
    let ?A3 = "A2\<lparr>alm := (alm A2)[slot L l m := ?x]\<rparr>"
    have g: "Alm_get A2 l m = Inr (alm A2 ! slot L l m)"
      using d2 m l(1) lL by (rule dense_get)
    have p: "Alm_put A2 l m ?x = Inr ?A3" and d3: "dense_store L M ?A3"
      using dense_put[OF d2 m l(1) lL, of ?x] by simp_all
    have b: "?body l A2 = Inr ?A3" using g p by simp
    have cur: "alm A2 ! slot L l m = alm A1 ! slot L l m"
      using v2[OF m l(1) lL] by simp
    have len: "slot L l m < length (alm A2)"
      using dense_index_slot(2)[OF d2 m l(1) lL] .
    have "alm ?A3 ! slot L l' m' =
            (if m' = m \<and> l' < Suc l then func l' m' (alm A1 ! slot L l' m')
             else alm A1 ! slot L l' m')"
      if h: "m' \<le> M" "m' \<le> l'" "l' \<le> L" for m' l'
    proof (cases "l' = l \<and> m' = m")
      case True
      then show ?thesis using len cur by simp
    next
      case False
      then have ne: "slot L l m \<noteq> slot L l' m'"
        using slot_inj[OF MleL m l(1) lL h] by blast
      then have "alm ?A3 ! slot L l' m' = alm A2 ! slot L l' m'" by simp
      also have "\<dots> = (if m' = m \<and> l' < l then func l' m' (alm A1 ! slot L l' m')
                    else alm A1 ! slot L l' m')" using v2[OF h] .
      also have "\<dots> = (if m' = m \<and> l' < Suc l then func l' m' (alm A1 ! slot L l' m')
             else alm A1 ! slot L l' m')" using False by (auto simp: less_Suc_eq)
      finally show ?thesis .
    qed
    with d3 have "?I (Suc l) ?A3" by blast
    with b show "\<exists>t'. ?body l A2 = Inr t' \<and> ?I (Suc l) t'" by blast
  qed
  then obtain A2 where r: "for_loop m (L + 1) ?body A1 = Inr A2" and d2: "dense_store L M A2"
    and v: "\<And>m' l'. m' \<le> M \<Longrightarrow> m' \<le> l' \<Longrightarrow> l' \<le> L \<Longrightarrow>
                 alm A2 ! slot L l' m' =
                   (if m' = m \<and> l' < L + 1 then func l' m' (alm A1 ! slot L l' m')
                    else alm A1 ! slot L l' m')" by blast
  have "alm A2 ! slot L l' m' =
          (if m' = m then func l' m' (alm A1 ! slot L l' m') else alm A1 ! slot L l' m')"
    if "m' \<le> M" "m' \<le> l'" "l' \<le> L" for m' l'
    using v[OF that] that(3) by simp
  with r d2 show ?thesis by blast
qed










section \<open>Rotation\<close>

text \<open>The loops of the branch \<open>theta = 0\<close> on a dense store.\<close>

lemma twist_all_spec:
  fixes A :: "complex Alm"
  assumes d: "dense_store L L A"
  shows "\<exists>A'. for_loop 0 (L + 1)
                (\<lambda>m A1.
                   let ang = polar 1 (- (psi + phi) * real m)
                   in for_loop m (L + 1)
                        (\<lambda>l A2. case Alm_get A2 l m of
                                   Inl e \<Rightarrow> Inl e
                                 | Inr v \<Rightarrow> Alm_put A2 l m (v * ang))
                        A1) A = Inr A' \<and>
              dense_store L L A' \<and>
              (\<forall>m l. m \<le> l \<and> l \<le> L \<longrightarrow>
                 alm A' ! slot L l m = alm A ! slot L l m * polar 1 (- (psi + phi) * real m))"
proof -
  let ?ang = "\<lambda>m. polar 1 (- (psi + phi) * real m)"
  let ?body = "\<lambda>m A1.
                   let ang = polar 1 (- (psi + phi) * real m)
                   in for_loop m (L + 1)
                        (\<lambda>l A2. case Alm_get A2 l m of
                                   Inl e \<Rightarrow> Inl e
                                 | Inr v \<Rightarrow> Alm_put A2 l m (v * ang))
                        A1"
  let ?I = "\<lambda>m A1. dense_store L L A1 \<and>
              (\<forall>m' l'. m' \<le> L \<and> m' \<le> l' \<and> l' \<le> L \<longrightarrow>
                 alm A1 ! slot L l' m' =
                   (if m' < m then alm A ! slot L l' m' * ?ang m' else alm A ! slot L l' m'))"
  have "\<exists>A'. for_loop 0 (L + 1) ?body A = Inr A' \<and> ?I (L + 1) A'"
  proof (rule for_loop_total[where I = ?I])
    show "?I 0 A" using d by simp
    show "0 \<le> L + 1" by simp
    fix m and A1 :: "complex Alm"
    assume m: "0 \<le> m" "m < L + 1" and I: "?I m A1"
    then have mL: "m \<le> L" by simp
    from I have d1: "dense_store L L A1" by blast
    from I have v1: "\<And>m' l'. m' \<le> L \<Longrightarrow> m' \<le> l' \<Longrightarrow> l' \<le> L \<Longrightarrow>
                 alm A1 ! slot L l' m' =
                   (if m' < m then alm A ! slot L l' m' * ?ang m' else alm A ! slot L l' m')"
      by blast
    from column_spec[OF d1 mL, of "\<lambda>l m' v. v * ?ang m"] obtain A2 where
      r: "for_loop m (L + 1)
                 (\<lambda>l A2. case Alm_get A2 l m of Inl e \<Rightarrow> Inl e
                           | Inr v \<Rightarrow> Alm_put A2 l m (v * ?ang m)) A1 = Inr A2"
      and d2: "dense_store L L A2"
      and v2: "\<And>m' l'. m' \<le> L \<Longrightarrow> m' \<le> l' \<Longrightarrow> l' \<le> L \<Longrightarrow>
                 alm A2 ! slot L l' m' =
                   (if m' = m then alm A1 ! slot L l' m' * ?ang m else alm A1 ! slot L l' m')"
      by blast
    have b: "?body m A1 = Inr A2" using r by (simp only: Let_def)
    have "alm A2 ! slot L l' m' =
            (if m' < Suc m then alm A ! slot L l' m' * ?ang m' else alm A ! slot L l' m')"
      if h: "m' \<le> L" "m' \<le> l'" "l' \<le> L" for m' l'
      unfolding v2[OF h] v1[OF h] by (auto simp: less_Suc_eq)
    with d2 have "?I (Suc m) A2" by blast
    with b show "\<exists>t'. ?body m A1 = Inr t' \<and> ?I (Suc m) t'" by blast
  qed
  then obtain A' where r: "for_loop 0 (L + 1) ?body A = Inr A'" and d': "dense_store L L A'"
    and v: "\<And>m' l'. m' \<le> L \<Longrightarrow> m' \<le> l' \<Longrightarrow> l' \<le> L \<Longrightarrow>
                 alm A' ! slot L l' m' =
                   (if m' < L + 1 then alm A ! slot L l' m' * ?ang m' else alm A ! slot L l' m')"
    by blast
  have "alm A' ! slot L l m = alm A ! slot L l m * ?ang m" if "m \<le> l" "l \<le> L" for m l
  proof -
    from that have "m \<le> L" by simp
    from v[OF this that] this show ?thesis by simp
  qed
  with r d' show ?thesis by blast
qed

text \<open>A complete store made by the constructor, without wrap-around, is dense.\<close>

lemma complete_dense:
  assumes "Alm_data data L M = Inr A" "complete A" "(L + 1) * (L + 2) < 2 ^ 64"
  shows "M = L" "dense_store L L A"
proof -
  note b = Alm_data_base[OF assms(1)]
  have "L + 1 \<le> (L + 1) * (L + 2)" by simp
  then have L1: "L + 1 < 2 ^ 64" using assms(3) by (rule le_less_trans)
  from assms(2) have "Suc M = (L + 1) mod 2 ^ 64"
    by (simp add: complete_def b(3,4))
  then show MeqL: "M = L" using L1 by simp
  have "coeff_count L L \<le> (L + 1) * (L + 2)" by (simp add: coeff_count_def)
  then have "coeff_count L L < 2 ^ 64" using assms(3) by (rule le_less_trans)
  with assms(3) have "no_wrap L L" by (simp add: no_wrap_def)
  with assms(1) show "dense_store L L A" unfolding MeqL by (rule Alm_data_dense)
qed

text \<open>
  The same loops on a complete store whose buffer is shorter than the layout
  asks for: column \<open>0\<close> is within the buffer, and column \<open>1\<close> leaves it.
\<close>

lemma wrapped_access:
  fixes t :: "'a Alm"
  assumes "length (mstart t) = Suc M"
    "\<forall>m\<le>M. mstart t ! m = ptrdiff_t (colstart L m - int m)" "m \<le> M"
    and "colstart L m - int m + int l = int i" "i < 2 ^ 64"
  shows "i < length (alm t) \<Longrightarrow> Alm_get t l m = Inr (alm t ! i)"
    and "i < length (alm t) \<Longrightarrow> Alm_put t l m x = Inr (t\<lparr>alm := (alm t)[i := x]\<rparr>)"
    and "\<not> i < length (alm t) \<Longrightarrow> Alm_get t l m = Inl OutOfRange"
proof -
  have "index t l m = Inr (size_t (int i))"
    using dense_index_wrapped[OF assms(1,2,3), of l] by (simp only: assms(4))
  then have ix: "index t l m = Inr i" by (simp only: size_t_int[OF assms(5)])
  show "i < length (alm t) \<Longrightarrow> Alm_get t l m = Inr (alm t ! i)"
    by (simp add: Alm_get_def ix mav_get_def)
  show "i < length (alm t) \<Longrightarrow> Alm_put t l m x = Inr (t\<lparr>alm := (alm t)[i := x]\<rparr>)"
    by (simp add: Alm_put_def ix mav_set_def)
  show "\<not> i < length (alm t) \<Longrightarrow> Alm_get t l m = Inl OutOfRange"
    by (simp add: Alm_get_def ix mav_get_def)
qed

lemma twist_leaves_buffer:
  fixes A :: "complex Alm"
  assumes lay: "lmax A = L" "length (mstart A) = Suc L"
    "\<forall>m\<le>L. mstart A ! m = ptrdiff_t (colstart L m - int m)"
    and c: "complete A"
    and n: "length (alm A) = n" "L < n" "n \<le> 2 * L" "2 * L < 2 ^ 64"
  shows "rotate_alm dn u A psi 0 phi = Inl OutOfRange"
proof -
  let ?P = "\<lambda>t :: complex Alm. length (mstart t) = Suc L \<and>
     (\<forall>m\<le>L. mstart t ! m = ptrdiff_t (colstart L m - int m)) \<and> length (alm t) = n"
  let ?inner = "\<lambda>ang m. (\<lambda>l A2. case Alm_get A2 l m of
                                   Inl e \<Rightarrow> Inl e
                                 | Inr v \<Rightarrow> Alm_put A2 l m (v * ang))"
  let ?body = "\<lambda>m A1.
                   let ang = polar 1 (- (psi + phi) * real m)
                   in for_loop m (L + 1) (?inner ang m) A1"
  have L1: "1 \<le> L" using n(2,3) by simp
  have step: "\<exists>t'. ?inner ang m l t = Inr t' \<and> ?P t'"
    if P: "?P t" and m: "m \<le> L" and ix: "colstart L m - int m + int l = int i" and i: "i < n"
    for ang m l i t
  proof -
    from P have f: "length (mstart t) = Suc L"
      "\<forall>m\<le>L. mstart t ! m = ptrdiff_t (colstart L m - int m)" "length (alm t) = n"
      by blast+
    have i64: "i < 2 ^ 64" using i n(3,4) by linarith
    have il: "i < length (alm t)" using i f(3) by simp
    note w = wrapped_access(1,2)[OF f(1,2) m ix i64 il]
    have "?inner ang m l t = Inr (t\<lparr>alm := (alm t)[i := alm t ! i * ang]\<rparr>)"
      by (simp only: w sum.case)
    moreover have "?P (t\<lparr>alm := (alm t)[i := alm t ! i * ang]\<rparr>)" using f by simp
    ultimately show ?thesis by blast
  qed
  have col0: "\<exists>t'. ?body 0 t = Inr t' \<and> ?P t'" if P: "?P t" for t
  proof -
    have "\<exists>t'. for_loop 0 (L + 1) (?inner (polar 1 (- (psi + phi) * real 0)) 0) t = Inr t'
            \<and> ?P t'"
    proof (rule for_loop_total[where I = "\<lambda>j. ?P"])
      show "?P t" by (rule P)
      show "(0::nat) \<le> L + 1" by simp
      fix l and s :: "complex Alm"
      assume l: "l < L + 1" and Ps: "?P s"
      have ix: "colstart L 0 - int 0 + int l = int l" by (simp add: colstart_0)
      have "l < n" using l n(2) by simp
      from step[OF Ps _ ix this]
      show "\<exists>t'. ?inner (polar 1 (- (psi + phi) * real 0)) 0 l s = Inr t' \<and> ?P t'" by simp
    qed
    then show ?thesis by (simp only: Let_def)
  qed
  have col1: "?body 1 t = Inl OutOfRange" if P: "?P t" for t
  proof -
    let ?k = "n - L"
    have k: "1 \<le> ?k" "?k < L + 1" using n(2,3) by simp_all
    have cs: "colstart L 1 = int L + 1" using colstart_Suc[of L 0] by (simp add: colstart_0)
    have "for_loop 1 (L + 1) (?inner (polar 1 (- (psi + phi) * real 1)) 1) t = Inl OutOfRange"
    proof (rule for_loop_fails[where I = "\<lambda>j. ?P" and k = ?k])
      show "?P t" by (rule P)
      show "1 \<le> ?k" "?k < L + 1" by (rule k)+
    next
      fix l and s :: "complex Alm"
      assume l: "1 \<le> l" "l < ?k" and Ps: "?P s"
      have ix: "colstart L 1 - int 1 + int l = int (L + l)" unfolding cs by simp
      have "L + l < n" using l(2) by simp
      from step[OF Ps L1 ix this]
      show "\<exists>t'. ?inner (polar 1 (- (psi + phi) * real 1)) 1 l s = Inr t' \<and> ?P t'" .
    next
      fix s :: "complex Alm"
      assume Ps: "?P s"
      then have f: "length (mstart s) = Suc L"
        "\<forall>m\<le>L. mstart s ! m = ptrdiff_t (colstart L m - int m)" "length (alm s) = n"
        by blast+
      have ix: "colstart L 1 - int 1 + int ?k = int n" unfolding cs using n(2) by simp
      have n64: "n < 2 ^ 64" using n(3,4) by linarith
      have "\<not> n < length (alm s)" using f(3) by simp
      from wrapped_access(3)[OF f(1,2) L1 ix n64 this]
      show "?inner (polar 1 (- (psi + phi) * real 1)) 1 ?k s = Inl OutOfRange" by simp
    qed
    then show ?thesis by (simp only: Let_def)
  qed
  have "for_loop 0 (L + 1) ?body A = Inl OutOfRange"
  proof (rule for_loop_fails[where I = "\<lambda>j. ?P" and k = 1])
    show "?P A" using lay(2,3) n(1) by simp
    show "(0::nat) \<le> 1" by simp
    show "1 < L + 1" using L1 by simp
  next
    fix j :: nat and t :: "complex Alm"
    assume "j < 1" and P: "?P t"
    then have j0: "j = 0" by simp
    show "\<exists>t'. ?body j t = Inr t' \<and> ?P t'" unfolding j0 by (rule col0[OF P])
  next
    fix t :: "complex Alm"
    assume "?P t"
    then show "?body 1 t = Inl OutOfRange" by (rule col1)
  qed
  then show ?thesis using c by (simp add: rotate_alm_def Lmax_def lay(1) Let_def)
qed

text \<open>
  The store for \<open>L = M = 2 ^ 32\<close>: \<^verbatim>\<open>Num_Alms\<close> wraps to \<open>6442450945\<close>, a buffer of that
  length is accepted, and the store is complete.
\<close>

lemma big_store:
  "\<exists>A :: complex Alm. Alm_data (replicate 6442450945 0) 4294967296 4294967296 = Inr A \<and>
     complete A \<and> lmax A = 4294967296 \<and> length (mstart A) = Suc 4294967296 \<and>
     (\<forall>m\<le>4294967296. mstart A ! m = ptrdiff_t (colstart 4294967296 m - int m)) \<and>
     length (alm A) = 6442450945"
proof -
  let ?L = "4294967296 :: nat"
  have h: "?L \<le> ?L" "?L + 1 < 2 ^ 64" by simp_all
  from dense_base[OF h] obtain b n where b: "Alm_Base_lmax_mmax ?L ?L = Inr b"
    "Num_Alms ?L ?L = Inr n" "lmax b = ?L" "arrsize b = n" "mval b = [0 ..< Suc ?L]"
    "length (mstart b) = Suc ?L"
    "\<forall>m\<le>?L. mstart b ! m = ptrdiff_t (colstart ?L m - int m)" by blast
  have "Num_Alms ?L ?L = Inr 6442450945" by (simp add: Num_Alms_def)
  with b(2) have n: "n = 6442450945" by simp
  let ?A = "\<lparr>lmax = lmax b, arrsize = arrsize b, mval = mval b, mstart = mstart b,
             alm = replicate 6442450945 (0::complex)\<rparr>"
  have "Alm_data (replicate 6442450945 (0::complex)) ?L ?L = Inr ?A"
    unfolding Alm_data_def b(1) by (simp add: b(2,3) n)
  moreover have "complete ?A" unfolding complete_def by (simp add: b(3,5) del: upt_Suc)
  ultimately show ?thesis using b(3,6,7) by (intro exI[of _ ?A]) simp
qed

lemma big_store_rotate:
  "\<not> isl (Alm_data (replicate 6442450945 (0::complex)) (2 ^ 32) (2 ^ 32)) \<and>
   complete (projr (Alm_data (replicate 6442450945 (0::complex)) (2 ^ 32) (2 ^ 32))) \<and>
   rotate_alm dn u (projr (Alm_data (replicate 6442450945 (0::complex)) (2 ^ 32) (2 ^ 32)))
     psi 0 phi = Inl OutOfRange"
proof -
  have e: "(2::nat) ^ 32 = 4294967296" by simp
  from big_store obtain A :: "complex Alm" where
    A: "Alm_data (replicate 6442450945 0) 4294967296 4294967296 = Inr A"
    and c: "complete A" and lay: "lmax A = 4294967296" "length (mstart A) = Suc 4294967296"
      "\<forall>m\<le>4294967296. mstart A ! m = ptrdiff_t (colstart 4294967296 m - int m)"
    and len: "length (alm A) = 6442450945" by blast
  have "rotate_alm dn u A psi 0 phi = Inl OutOfRange"
    using lay c len by (rule twist_leaves_buffer) simp_all
  with c show ?thesis unfolding e A by simp
qed

text \<open>The whole of \<^verbatim>\<open>rotate_alm\<close> for \<open>theta = 0\<close> on a complete dense store.\<close>

lemma rotate_alm_twist:
  fixes A :: "complex Alm"
  assumes d: "dense_store L L A" and c: "complete A"
  shows "\<exists>A'. rotate_alm dn u A psi 0 phi = Inr (A', None) \<and> dense_store L L A' \<and>
           (\<forall>m l. m \<le> l \<and> l \<le> L \<longrightarrow>
              alm A' ! slot L l m = alm A ! slot L l m * polar 1 (- (psi + phi) * real m))"
proof -
  from twist_all_spec[OF d, of psi phi] obtain A' where
    r: "for_loop 0 (L + 1)
                (\<lambda>m A1.
                   let ang = polar 1 (- (psi + phi) * real m)
                   in for_loop m (L + 1)
                        (\<lambda>l A2. case Alm_get A2 l m of
                                   Inl e \<Rightarrow> Inl e
                                 | Inr v \<Rightarrow> Alm_put A2 l m (v * ang))
                        A1) A = Inr A'"
    and d': "dense_store L L A'"
    and v: "\<forall>m l. m \<le> l \<and> l \<le> L \<longrightarrow>
                 alm A' ! slot L l m = alm A ! slot L l m * polar 1 (- (psi + phi) * real m)"
    by blast
  have lm: "lmax A = L" using d by (simp add: dense_store_def)
  have "rotate_alm dn u A psi 0 phi = Inr (A', None)"
    using c r by (simp add: rotate_alm_def Lmax_def lm Let_def)
  with d' v show ?thesis by blast
qed

text \<open>
  Claim C4 speaks of every complete store. The number of slots is computed in
  \<^verbatim>\<open>size_t\<close>: for \<open>L = M = 2 ^ 32\<close> the product \<open>(M+1)(M+2)\<close> wraps and \<^verbatim>\<open>Num_Alms\<close>
  returns \<open>6442450945\<close> where \<open>9223372043297226753\<close> coefficients are to be stored.
  The constructor accepts a buffer of \<open>6442450945\<close> slots and the store is
  complete, but \<open>a(2147483649, 1)\<close> has index \<open>2 ^ 32 + 2147483649 = 6442450945\<close>,
  beyond the last slot: \<^verbatim>\<open>rotate_alm\<close> with \<open>theta = 0\<close> leaves the buffer instead of
  multiplying every coefficient.
\<close>

theorem C4_large_store_leaves_buffer:
  "Num_Alms (2 ^ 32) (2 ^ 32) = Inr 6442450945 \<and>
   \<not> isl (Alm_data (replicate 6442450945 (0::complex)) (2 ^ 32) (2 ^ 32)) \<and>
   complete (projr (Alm_data (replicate 6442450945 (0::complex)) (2 ^ 32) (2 ^ 32))) \<and>
   rotate_alm 1 \<lparr>nthreads = 0, nwork = 0, cur = 0, chunksize = 0, fact_max = 0,
                   nextstart = [], mode = SINGLE, single_done = False\<rparr>
     (projr (Alm_data (replicate 6442450945 (0::complex)) (2 ^ 32) (2 ^ 32))) 1 0 2
     = Inl OutOfRange"
proof -
  have "Num_Alms (2 ^ 32) (2 ^ 32) = Inr 6442450945" by (simp add: Num_Alms_def)
  then show ?thesis by (rule conjI[OF _ big_store_rotate])
qed

text \<open>
  Claim C4, amended. For a complete store made by the constructor, with
  \<open>(L+1)(L+2)\<close> below \<open>2 ^ 64\<close>, \<^verbatim>\<open>rotate_alm\<close> with \<open>theta = 0\<close> succeeds, constructs no
  recurrer, keeps the layout, and leaves in the place of every \<open>a(l, m)\<close> with
  \<open>m \<le> l \<le> L\<close> the old value times \<open>exp(-i (psi + phi) m)\<close>.
\<close>

theorem C4_phase_twist:
  assumes "Alm_data data L M = Inr A" "complete A" "(L + 1) * (L + 2) < 2 ^ 64"
  shows "\<exists>A'. rotate_alm dn u A psi 0 phi = Inr (A', None) \<and>
           lmax A' = lmax A \<and> mval A' = mval A \<and> mstart A' = mstart A \<and>
           length (alm A') = length (alm A) \<and>
           (\<forall>m l. m \<le> l \<and> l \<le> L \<longrightarrow>
              (\<exists>v. Alm_get A l m = Inr v \<and>
                   Alm_get A' l m = Inr (v * exp (\<i> * of_real (- (psi + phi) * real m)))))"
proof -
  from complete_dense[OF assms] have d: "dense_store L L A" by blast
  from rotate_alm_twist[OF d assms(2), of dn u psi phi] obtain A' where
    run: "rotate_alm dn u A psi 0 phi = Inr (A', None)"
    and d': "dense_store L L A'"
    and v: "\<And>m l. m \<le> l \<Longrightarrow> l \<le> L \<Longrightarrow>
                 alm A' ! slot L l m = alm A ! slot L l m * polar 1 (- (psi + phi) * real m)"
    by blast
  note lay = dense_same_layout[OF d d']
  have vals: "\<exists>w. Alm_get A l m = Inr w \<and>
                Alm_get A' l m = Inr (w * exp (\<i> * of_real (- (psi + phi) * real m)))"
    if h: "m \<le> l" "l \<le> L" for m l
  proof -
    from h have mL: "m \<le> L" by simp
    have g: "Alm_get A l m = Inr (alm A ! slot L l m)" using d mL h by (rule dense_get)
    have g': "Alm_get A' l m = Inr (alm A' ! slot L l m)" using d' mL h by (rule dense_get)
    have "polar 1 (- (psi + phi) * real m) = exp (\<i> * of_real (- (psi + phi) * real m))"
      by (simp add: polar_def cis_conv_exp)
    with g g' v[OF h] show ?thesis by simp
  qed
  from run lay vals show ?thesis by blast
qed

theorem C4_phase_twist_witness:
  "Alm_data [1, 2, 3 :: complex] 1 1
     = Inr \<lparr>lmax = 1, arrsize = 3, mval = [0, 1], mstart = [0, 1], alm = [1, 2, 3]\<rparr> \<and>
   complete \<lparr>lmax = 1, arrsize = 3, mval = [0, 1], mstart = [0, 1], alm = [1, 2, 3 :: complex]\<rparr> \<and>
   ((1::nat) + 1) * (1 + 2) < 2 ^ 64 \<and>
   (\<exists>A'. rotate_alm 1 \<lparr>nthreads = 0, nwork = 0, cur = 0, chunksize = 0, fact_max = 0,
                          nextstart = [], mode = SINGLE, single_done = False\<rparr>
              \<lparr>lmax = 1, arrsize = 3, mval = [0, 1], mstart = [0, 1], alm = [1, 2, 3]\<rparr>
              (pi / 2) 0 (pi / 2) = Inr (A', None) \<and>
         Alm_get A' 1 1 = Inr (3 * exp (\<i> * of_real (- (pi / 2 + pi / 2) * real 1))))"
proof -
  let ?A = "\<lparr>lmax = 1, arrsize = 3, mval = [0, 1], mstart = [0, 1], alm = [1, 2, 3 :: complex]\<rparr>"
  let ?U = "\<lparr>nthreads = 0, nwork = 0, cur = 0, chunksize = 0, fact_max = 0,
             nextstart = [], mode = SINGLE, single_done = False\<rparr>"
  have a: "Alm_data [1, 2, 3 :: complex] 1 1 = Inr ?A"
    by (simp add: Alm_data_def Alm_Base_lmax_mmax_def Num_Alms_def dense_loop.simps
          size_t_def ptrdiff_t_def replicate_two)
  have c: "complete ?A" by (simp add: complete_def)
  have nw: "((1::nat) + 1) * (1 + 2) < 2 ^ 64" by simp
  from C4_phase_twist[OF a c nw, of 1 ?U "pi / 2" "pi / 2"] obtain A' where
    r: "rotate_alm 1 ?U ?A (pi / 2) 0 (pi / 2) = Inr (A', None)"
    and v: "\<forall>m l. m \<le> l \<and> l \<le> 1 \<longrightarrow>
              (\<exists>v. Alm_get ?A l m = Inr v \<and>
                   Alm_get A' l m = Inr (v * exp (\<i> * of_real (- (pi / 2 + pi / 2) * real m))))"
    by blast
  have g: "Alm_get ?A 1 1 = Inr 3"
    by (simp add: Alm_get_def index_def index_l0_def mav_get_def size_t_def)
  have h: "(1::nat) \<le> 1 \<and> (1::nat) \<le> 1" by simp
  from v[THEN spec[where x = 1], THEN spec[where x = 1], THEN mp, OF h] g
  have "Alm_get A' 1 1 = Inr (3 * exp (\<i> * of_real (- (pi / 2 + pi / 2) * real 1)))"
    by auto
  with r have "\<exists>A'. rotate_alm 1 ?U ?A (pi / 2) 0 (pi / 2) = Inr (A', None) \<and>
         Alm_get A' 1 1 = Inr (3 * exp (\<i> * of_real (- (pi / 2 + pi / 2) * real 1)))"
    by blast
  with a c nw show ?thesis by (intro conjI)
qed

text \<open>The branch \<open>theta \<noteq> 0\<close>: the vectors, the scheduler call, and the loops of one round.\<close>

lemma fill_spec:
  fixes f g :: "nat \<Rightarrow> complex"
  assumes L1: "L + 1 < 2 ^ 64"
  shows "for_loop 0 (L + 1)
           (\<lambda>m (ep, eh).
              if \<not> (m < length ep \<and> m < length eh) then Inl OutOfRange
              else Inr (ep[m := f m], eh[m := g m]))
           (replicate (size_t (int L + 1)) 0, replicate (size_t (int L + 1)) 0)
         = Inr (map f [0 ..< L + 1], map g [0 ..< L + 1])"
proof -
  let ?body = "\<lambda>m (ep, eh).
              if \<not> (m < length ep \<and> m < length eh) then Inl OutOfRange
              else Inr (ep[m := f m], eh[m := g m])"
  let ?I = "\<lambda>j (s :: complex list \<times> complex list).
              length (fst s) = L + 1 \<and> length (snd s) = L + 1 \<and>
              (\<forall>k<j. fst s ! k = f k \<and> snd s ! k = g k)"
  have e: "int L + 1 = int (L + 1)" by simp
  have sz: "size_t (int L + 1) = L + 1" unfolding e by (rule size_t_int[OF L1])
  have "\<exists>s'. for_loop 0 (L + 1) ?body (replicate (L + 1) 0, replicate (L + 1) 0) = Inr s' \<and>
             ?I (L + 1) s'"
  proof (rule for_loop_total[where I = ?I])
    show "?I 0 (replicate (L + 1) 0, replicate (L + 1) 0)" by simp
    show "0 \<le> L + 1" by simp
    fix j and t :: "complex list \<times> complex list"
    assume j: "0 \<le> j" "j < L + 1" and I: "?I j t"
    obtain ep eh where t: "t = (ep, eh)" by (cases t)
    from I have len: "length ep = L + 1" "length eh = L + 1"
      and v: "\<And>k. k < j \<Longrightarrow> ep ! k = f k \<and> eh ! k = g k" unfolding t by simp_all
    have b: "?body j t = Inr (ep[j := f j], eh[j := g j])" using j(2) len by (simp add: t)
    have "?I (Suc j) (ep[j := f j], eh[j := g j])"
      using len v j(2) by (auto simp: less_Suc_eq nth_list_update)
    with b show "\<exists>t'. ?body j t = Inr t' \<and> ?I (Suc j) t'" by blast
  qed
  then obtain ep eh where
    r: "for_loop 0 (L + 1) ?body (replicate (L + 1) 0, replicate (L + 1) 0) = Inr (ep, eh)"
    and len: "length ep = L + 1" "length eh = L + 1"
    and v: "\<And>k. k < L + 1 \<Longrightarrow> ep ! k = f k \<and> eh ! k = g k" by auto
  have "ep = map f [0 ..< L + 1]"
    by (rule nth_equalityI) (use len v in \<open>simp_all del: upt_Suc\<close>)
  moreover have "eh = map g [0 ..< L + 1]"
    by (rule nth_equalityI) (use len v in \<open>simp_all del: upt_Suc\<close>)
  ultimately show ?thesis using r unfolding sz by simp
qed

lemma rotate_getNext:
  assumes "l + 1 < 2 ^ 64"
  shows "\<exists>d'. getNext (execStatic dn u (l + 1) 1 0) 0 = Inr (\<lparr>lo = 0, hi = l + 1\<rparr>, d')"
proof -
  have "(1::nat) \<le> 1" by simp
  moreover have "l + 1 + 1 \<le> (2::nat) ^ 64" using assms by simp
  ultimately have "size_t (int (l + 1) + int 1 - 1) = l + 1 + 1 - 1" by (rule default_chunk)
  then have C: "l + 1 = (if (0::nat) < 1 then size_t (int (l + 1) + int 1 - 1) div 1 else 0)"
    by simp
  have n: "(1::nat) = (if (1::nat) = 0 then dn else 1)" by simp
  have "Distribution_execStatic dn (Distribution_new u) (l + 1) 1 0 =
          Distribution_execSingle
            ((Distribution_new u)\<lparr>mode := STATIC, nthreads := 1, nwork := l + 1,
                                   chunksize := l + 1\<rparr>) (l + 1)"
    using n C by (rule execStatic_single) simp
  then show ?thesis
    by (simp add: execStatic_def Distribution_execSingle_def getNext_def)
qed

lemma job_inner_spec:
  fixes tmp :: "complex list"
  assumes len: "l < length tmp"
  shows "\<exists>tmp' f. for_loop 0 (l + 1)
            (\<lambda>m (tmp', flip2').
               if \<not> m < length tmp' then Inl OutOfRange
               else
                 (let d1 = (if flip2' then - dm (l - mm) (l - m)
                            else dm (l - mm) (l - m));
                      d2 = (if odd mm then - dm (l - mm) (l + m)
                            else dm (l - mm) (l + m));
                      f1 = d1 + d2; f2 = d1 - d2
                  in Inr (tmp'[m := tmp' ! m + Complex (Re t1 * f1) (Im t1 * f2)],
                          \<not> flip2')))
            (tmp, odd (mm + 0)) = Inr (tmp', f) \<and>
          length tmp' = length tmp \<and>
          (\<forall>m\<le>l. tmp' ! m = tmp ! m + rot_term dm t1 l mm m)"
proof -
  let ?body = "\<lambda>m (tmp', flip2').
               if \<not> m < length tmp' then Inl OutOfRange
               else
                 (let d1 = (if flip2' then - dm (l - mm) (l - m)
                            else dm (l - mm) (l - m));
                      d2 = (if odd mm then - dm (l - mm) (l + m)
                            else dm (l - mm) (l + m));
                      f1 = d1 + d2; f2 = d1 - d2
                  in Inr (tmp'[m := tmp' ! m + Complex (Re t1 * f1) (Im t1 * f2)],
                          \<not> flip2'))"
  let ?I = "\<lambda>j (s :: complex list \<times> bool).
              length (fst s) = length tmp \<and> snd s = odd (mm + j) \<and>
              (\<forall>m\<le>l. fst s ! m = (if m < j then tmp ! m + rot_term dm t1 l mm m else tmp ! m))"
  have "\<exists>s'. for_loop 0 (l + 1) ?body (tmp, odd (mm + 0)) = Inr s' \<and> ?I (l + 1) s'"
  proof (rule for_loop_total[where I = ?I])
    show "?I 0 (tmp, odd (mm + 0))" by simp
    show "0 \<le> l + 1" by simp
    fix j and s :: "complex list \<times> bool"
    assume j: "0 \<le> j" "j < l + 1" and I: "?I j s"
    obtain tm fl where s: "s = (tm, fl)" by (cases s)
    from I have ln: "length tm = length tmp" and fl: "fl = odd (mm + j)"
      and v: "\<And>m. m \<le> l \<Longrightarrow>
                tm ! m = (if m < j then tmp ! m + rot_term dm t1 l mm m else tmp ! m)"
      unfolding s by simp_all
    from j(2) have jl: "j \<le> l" by simp
    have jlen: "j < length tm" using jl len ln by simp
    have cur: "tm ! j = tmp ! j" using v[OF jl] by simp
    have b: "?body j s = Inr (tm[j := tmp ! j + rot_term dm t1 l mm j], \<not> fl)"
      using jlen by (simp add: s cur rot_term_def Let_def fl)
    have "?I (Suc j) (tm[j := tmp ! j + rot_term dm t1 l mm j], \<not> fl)"
      using ln fl v jlen by (auto simp: less_Suc_eq nth_list_update)
    with b show "\<exists>t'. ?body j s = Inr t' \<and> ?I (Suc j) t'" by blast
  qed
  then obtain tm fl where r: "for_loop 0 (l + 1) ?body (tmp, odd (mm + 0)) = Inr (tm, fl)"
    and ln: "length tm = length tmp"
    and v: "\<And>m. m \<le> l \<Longrightarrow>
                tm ! m = (if m < l + 1 then tmp ! m + rot_term dm t1 l mm m else tmp ! m)"
    by auto
  have "\<forall>m\<le>l. tm ! m = tmp ! m + rot_term dm t1 l mm m" using v by simp
  with r ln show ?thesis by blast
qed

lemma rotate_job_spec:
  assumes d: "dense_store L L A" and l: "l \<le> L"
    and ep: "length exppsi = L + 1" and t: "length tmp0 = L + 1"
  shows "\<exists>tmp1. rotate_job A l dm exppsi \<lparr>lo = 0, hi = l + 1\<rparr> tmp0 = Inr tmp1 \<and>
           length tmp1 = L + 1 \<and>
           (\<forall>m\<le>l. tmp1 ! m = tmp0 ! m +
              (\<Sum>mm = 1 ..< l + 1. rot_term dm (alm A ! slot L l mm * exppsi ! mm) l mm m))"
proof -
  let ?rng = "\<lparr>lo = 0, hi = l + 1\<rparr>"
  let ?body = "\<lambda>mm (tmp, flip).
           case Alm_get A l mm of
             Inl e \<Rightarrow> Inl e
           | Inr a \<Rightarrow>
              if \<not> mm < length exppsi then Inl OutOfRange
              else
                (let t1 = a * exppsi ! mm;
                     flip2 = odd (mm + lo ?rng)
                 in case for_loop (lo ?rng) (hi ?rng)
                      (\<lambda>m (tmp', flip2').
                         if \<not> m < length tmp' then Inl OutOfRange
                         else
                           (let d1 = (if flip2' then - dm (l - mm) (l - m)
                                      else dm (l - mm) (l - m));
                                d2 = (if flip then - dm (l - mm) (l + m)
                                      else dm (l - mm) (l + m));
                                f1 = d1 + d2; f2 = d1 - d2
                            in Inr (tmp'[m := tmp' ! m + Complex (Re t1 * f1) (Im t1 * f2)],
                                    \<not> flip2')))
                      (tmp, flip2) of
                      Inl e \<Rightarrow> Inl e
                    | Inr (tmp', _) \<Rightarrow> Inr (tmp', \<not> flip))"
  let ?contrib = "\<lambda>mm m. rot_term dm (alm A ! slot L l mm * exppsi ! mm) l mm m"
  let ?I = "\<lambda>mm (s :: complex list \<times> bool).
              length (fst s) = L + 1 \<and> snd s = odd mm \<and>
              (\<forall>m\<le>l. fst s ! m = tmp0 ! m + (\<Sum>k = 1 ..< mm. ?contrib k m))"
  have "\<exists>s'. for_loop 1 (l + 1) ?body (tmp0, True) = Inr s' \<and> ?I (l + 1) s'"
  proof (rule for_loop_total[where I = ?I])
    show "?I 1 (tmp0, True)" using t by simp
    show "1 \<le> l + 1" by simp
    fix mm and s :: "complex list \<times> bool"
    assume mm: "1 \<le> mm" "mm < l + 1" and I: "?I mm s"
    obtain tm fl where s: "s = (tm, fl)" by (cases s)
    from I have ln: "length tm = L + 1" and fl: "fl = odd mm"
      and v: "\<And>m. m \<le> l \<Longrightarrow> tm ! m = tmp0 ! m + (\<Sum>k = 1 ..< mm. ?contrib k m)"
      unfolding s by simp_all
    from mm(2) have ml: "mm \<le> l" by simp
    with l have mL: "mm \<le> L" by simp
    have g: "Alm_get A l mm = Inr (alm A ! slot L l mm)" using d mL ml l by (rule dense_get)
    have me: "mm < length exppsi" using mL ep by simp
    have "l < length tm" using l ln by simp
    from job_inner_spec[OF this, of dm mm "alm A ! slot L l mm * exppsi ! mm"]
    obtain tm' f where
      inner: "for_loop 0 (l + 1)
            (\<lambda>m (tmp', flip2').
               if \<not> m < length tmp' then Inl OutOfRange
               else
                 (let d1 = (if flip2' then - dm (l - mm) (l - m)
                            else dm (l - mm) (l - m));
                      d2 = (if odd mm then - dm (l - mm) (l + m)
                            else dm (l - mm) (l + m));
                      f1 = d1 + d2; f2 = d1 - d2
                  in Inr (tmp'[m := tmp' ! m
                            + Complex (Re (alm A ! slot L l mm * exppsi ! mm) * f1)
                                      (Im (alm A ! slot L l mm * exppsi ! mm) * f2)],
                          \<not> flip2')))
            (tm, odd (mm + 0)) = Inr (tm', f)"
      and ln': "length tm' = length tm"
      and v': "\<And>m. m \<le> l \<Longrightarrow> tm' ! m = tm ! m + ?contrib mm m"
      by blast
    have b: "?body mm s = Inr (tm', \<not> fl)"
      using inner me by (simp add: s g fl Let_def)
    have "tm' ! m = tmp0 ! m + (\<Sum>k = 1 ..< Suc mm. ?contrib k m)" if "m \<le> l" for m
      using v'[OF that] v[OF that] mm(1) by simp
    then have "?I (Suc mm) (tm', \<not> fl)" using ln ln' fl by simp
    with b show "\<exists>t'. ?body mm s = Inr t' \<and> ?I (Suc mm) t'" by blast
  qed
  then obtain tm fl where r: "for_loop 1 (l + 1) ?body (tmp0, True) = Inr (tm, fl)"
    and ln: "length tm = L + 1"
    and v: "\<forall>m\<le>l. tm ! m = tmp0 ! m + (\<Sum>k = 1 ..< l + 1. ?contrib k m)"
    by auto
  have "rotate_job A l dm exppsi ?rng tmp0 = Inr tm"
    unfolding rotate_job_def using r by simp
  with ln v show ?thesis by blast
qed

lemma round_init_spec:
  fixes tmp :: "complex list"
  assumes d: "dense_store L L A" and l: "l \<le> L" and t: "length tmp = L + 1"
  shows "\<exists>tmp0. for_loop 0 (l + 1)
                (\<lambda>m tmp. case Alm_get A l 0 of
                            Inl e \<Rightarrow> Inl e
                          | Inr a \<Rightarrow>
                             if \<not> m < length tmp then Inl OutOfRange
                             else Inr (tmp[m := a * of_real (dm l (l + m))]))
                tmp = Inr tmp0 \<and>
           length tmp0 = L + 1 \<and>
           (\<forall>m\<le>l. tmp0 ! m = alm A ! slot L l 0 * of_real (dm l (l + m)))"
proof -
  let ?body = "\<lambda>m tmp. case Alm_get A l 0 of
                            Inl e \<Rightarrow> Inl e
                          | Inr a \<Rightarrow>
                             if \<not> m < length tmp then Inl OutOfRange
                             else Inr (tmp[m := a * of_real (dm l (l + m))])"
  let ?I = "\<lambda>j (s :: complex list).
              length s = L + 1 \<and>
              (\<forall>m<j. s ! m = alm A ! slot L l 0 * of_real (dm l (l + m)))"
  have g: "Alm_get A l 0 = Inr (alm A ! slot L l 0)"
    using d _ _ l by (rule dense_get) simp_all
  have "\<exists>s'. for_loop 0 (l + 1) ?body tmp = Inr s' \<and> ?I (l + 1) s'"
  proof (rule for_loop_total[where I = ?I])
    show "?I 0 tmp" using t by simp
    show "0 \<le> l + 1" by simp
    fix j and s :: "complex list"
    assume j: "0 \<le> j" "j < l + 1" and I: "?I j s"
    from I have ln: "length s = L + 1"
      and v: "\<And>m. m < j \<Longrightarrow> s ! m = alm A ! slot L l 0 * of_real (dm l (l + m))"
      by simp_all
    have jlen: "j < length s" using j(2) l ln by simp
    have b: "?body j s = Inr (s[j := alm A ! slot L l 0 * of_real (dm l (l + j))])"
      using jlen by (simp add: g)
    have "?I (Suc j) (s[j := alm A ! slot L l 0 * of_real (dm l (l + j))])"
      using ln v jlen by (auto simp: less_Suc_eq nth_list_update)
    with b show "\<exists>t'. ?body j s = Inr t' \<and> ?I (Suc j) t'" by blast
  qed
  then obtain tmp0 where r: "for_loop 0 (l + 1) ?body tmp = Inr tmp0"
    and ln: "length tmp0 = L + 1"
    and v: "\<And>m. m < l + 1 \<Longrightarrow> tmp0 ! m = alm A ! slot L l 0 * of_real (dm l (l + m))"
    by auto
  have "\<forall>m\<le>l. tmp0 ! m = alm A ! slot L l 0 * of_real (dm l (l + m))" using v by simp
  with r ln show ?thesis by blast
qed

text \<open>The loop that writes row \<open>l\<close> back replaces that row and keeps every other one.\<close>

lemma round_write_spec:
  fixes A :: "complex Alm"
  assumes d: "dense_store L L A" and l: "l \<le> L"
    and t: "length tmp1 = L + 1" and eh: "length expphi = L + 1"
  shows "\<exists>A'. for_loop 0 (l + 1)
                 (\<lambda>m A'. if \<not> (m < length tmp1 \<and> m < length expphi)
                          then Inl OutOfRange
                          else Alm_put A' l m (tmp1 ! m * expphi ! m)) A = Inr A' \<and>
              dense_store L L A' \<and>
              (\<forall>m' l'. m' \<le> l' \<and> l' \<le> L \<longrightarrow>
                 alm A' ! slot L l' m' =
                   (if l' = l then tmp1 ! m' * expphi ! m' else alm A ! slot L l' m'))"
proof -
  let ?body = "\<lambda>m A'. if \<not> (m < length tmp1 \<and> m < length expphi)
                          then Inl OutOfRange
                          else Alm_put A' l m (tmp1 ! m * expphi ! m)"
  let ?I = "\<lambda>j (A2 :: complex Alm). dense_store L L A2 \<and>
              (\<forall>m' l'. m' \<le> l' \<and> l' \<le> L \<longrightarrow>
                 alm A2 ! slot L l' m' =
                   (if l' = l \<and> m' < j then tmp1 ! m' * expphi ! m'
                    else alm A ! slot L l' m'))"
  have "\<exists>A'. for_loop 0 (l + 1) ?body A = Inr A' \<and> ?I (l + 1) A'"
  proof (rule for_loop_total[where I = ?I])
    show "?I 0 A" using d by simp
    show "0 \<le> l + 1" by simp
    fix j and A2 :: "complex Alm"
    assume j: "0 \<le> j" "j < l + 1" and I: "?I j A2"
    then have jl: "j \<le> l" by simp
    with l have jL: "j \<le> L" by simp
    from I have d2: "dense_store L L A2" by blast
    from I have v2: "\<And>m' l'. m' \<le> l' \<Longrightarrow> l' \<le> L \<Longrightarrow>
                 alm A2 ! slot L l' m' =
                   (if l' = l \<and> m' < j then tmp1 ! m' * expphi ! m'
                    else alm A ! slot L l' m')" by blast
    let ?x = "tmp1 ! j * expphi ! j"
    let ?A3 = "A2\<lparr>alm := (alm A2)[slot L l j := ?x]\<rparr>"
    have p: "Alm_put A2 l j ?x = Inr ?A3" and d3: "dense_store L L ?A3"
      using dense_put[OF d2 jL jl l, of ?x] by simp_all
    have b: "?body j A2 = Inr ?A3" using p jL t eh by simp
    have len: "slot L l j < length (alm A2)"
      using dense_index_slot(2)[OF d2 jL jl l] .
    have "alm ?A3 ! slot L l' m' =
            (if l' = l \<and> m' < Suc j then tmp1 ! m' * expphi ! m'
             else alm A ! slot L l' m')"
      if h: "m' \<le> l'" "l' \<le> L" for m' l'
    proof (cases "l' = l \<and> m' = j")
      case True
      then show ?thesis using len by simp
    next
      case False
      from h have mL: "m' \<le> L" by simp
      have "slot L l j \<noteq> slot L l' m'"
        using slot_inj[OF le_refl jL jl l mL h] False by blast
      then have "alm ?A3 ! slot L l' m' = alm A2 ! slot L l' m'" by simp
      also have "\<dots> = (if l' = l \<and> m' < j then tmp1 ! m' * expphi ! m'
                    else alm A ! slot L l' m')" using v2[OF h] .
      also have "\<dots> = (if l' = l \<and> m' < Suc j then tmp1 ! m' * expphi ! m'
             else alm A ! slot L l' m')" using False by (auto simp: less_Suc_eq)
      finally show ?thesis .
    qed
    with d3 have "?I (Suc j) ?A3" by blast
    with b show "\<exists>t'. ?body j A2 = Inr t' \<and> ?I (Suc j) t'" by blast
  qed
  then obtain A' where r: "for_loop 0 (l + 1) ?body A = Inr A'" and d': "dense_store L L A'"
    and v: "\<And>m' l'. m' \<le> l' \<Longrightarrow> l' \<le> L \<Longrightarrow>
                 alm A' ! slot L l' m' =
                   (if l' = l \<and> m' < l + 1 then tmp1 ! m' * expphi ! m'
                    else alm A ! slot L l' m')" by blast
  have "alm A' ! slot L l' m' =
          (if l' = l then tmp1 ! m' * expphi ! m' else alm A ! slot L l' m')"
    if h: "m' \<le> l'" "l' \<le> L" for m' l'
    using v[OF h] h(1) by auto
  with r d' show ?thesis by blast
qed

lemma rot_sum_cong:
  assumes "\<And>mm. mm \<le> l \<Longrightarrow> a mm = b mm"
  shows "rot_sum dm psi a l m = rot_sum dm psi b l m"
proof -
  have "(\<Sum>mm = 1 ..< l + 1. rot_term dm (a mm * polar 1 (- psi * real mm)) l mm m) =
        (\<Sum>mm = 1 ..< l + 1. rot_term dm (b mm * polar 1 (- psi * real mm)) l mm m)"
    by (rule sum.cong) (use assms in simp_all)
  moreover have "a 0 = b 0" by (rule assms) simp
  ultimately show ?thesis by (simp add: rot_sum_def)
qed

text \<open>
  One round: row \<open>l\<close> of the store is replaced by the rotated row, computed from
  the row as it stood before the round and the matrix that \<^verbatim>\<open>recurse\<close> returns.
\<close>

lemma rotate_round_spec:
  fixes A :: "complex Alm"
  assumes d: "dense_store L L A" and l: "l \<le> L" and L1: "L + 1 < 2 ^ 64"
    and t: "length tmp = L + 1"
    and ep: "exppsi = map (\<lambda>m. polar 1 (- psi * real m)) [0 ..< L + 1]"
    and eh: "expphi = map (\<lambda>m. polar 1 (- phi * real m)) [0 ..< L + 1]"
  shows "\<exists>A' tmp1. rotate_round dn u exppsi expphi l (A, tmp, rec) = Inr (A', tmp1, recurse rec) \<and>
           dense_store L L A' \<and> length tmp1 = L + 1 \<and>
           (\<forall>m' l'. m' \<le> l' \<and> l' \<le> L \<longrightarrow>
              alm A' ! slot L l' m' =
                (if l' = l
                 then rot_sum (rec_d (recurse rec)) psi (\<lambda>mm. alm A ! slot L l mm) l m'
                        * polar 1 (- phi * real m')
                 else alm A ! slot L l' m'))"
proof -
  let ?dm = "rec_d (recurse rec)"
  have lep: "length exppsi = L + 1" and leh: "length expphi = L + 1"
    unfolding ep eh by simp_all
  have epv: "exppsi ! m = polar 1 (- psi * real m)" if "m \<le> L" for m
    unfolding ep using that by (simp del: upt_Suc)
  have ehv: "expphi ! m = polar 1 (- phi * real m)" if "m \<le> L" for m
    unfolding eh using that by (simp del: upt_Suc)
  from round_init_spec[OF d l t, of ?dm] obtain tmp0 where
    r0: "for_loop 0 (l + 1)
                (\<lambda>m tmp. case Alm_get A l 0 of
                            Inl e \<Rightarrow> Inl e
                          | Inr a \<Rightarrow>
                             if \<not> m < length tmp then Inl OutOfRange
                             else Inr (tmp[m := a * of_real (?dm l (l + m))]))
                tmp = Inr tmp0"
    and t0: "length tmp0 = L + 1"
    and v0: "\<And>m. m \<le> l \<Longrightarrow> tmp0 ! m = alm A ! slot L l 0 * of_real (?dm l (l + m))"
    by blast
  have "l + 1 < 2 ^ 64" using l L1 by simp
  from rotate_getNext[OF this, of dn u] obtain d' where
    gn: "getNext (execStatic dn u (l + 1) 1 0) 0 = Inr (\<lparr>lo = 0, hi = l + 1\<rparr>, d')" by blast
  from rotate_job_spec[OF d l lep t0, of ?dm] obtain tmp1 where
    r1: "rotate_job A l ?dm exppsi \<lparr>lo = 0, hi = l + 1\<rparr> tmp0 = Inr tmp1"
    and t1: "length tmp1 = L + 1"
    and v1: "\<And>m. m \<le> l \<Longrightarrow> tmp1 ! m = tmp0 ! m +
              (\<Sum>mm = 1 ..< l + 1. rot_term ?dm (alm A ! slot L l mm * exppsi ! mm) l mm m)"
    by blast
  from round_write_spec[OF d l t1 leh] obtain A' where
    r2: "for_loop 0 (l + 1)
                 (\<lambda>m A'. if \<not> (m < length tmp1 \<and> m < length expphi)
                          then Inl OutOfRange
                          else Alm_put A' l m (tmp1 ! m * expphi ! m)) A = Inr A'"
    and d2: "dense_store L L A'"
    and v2: "\<And>m' l'. m' \<le> l' \<Longrightarrow> l' \<le> L \<Longrightarrow>
                 alm A' ! slot L l' m' =
                   (if l' = l then tmp1 ! m' * expphi ! m' else alm A ! slot L l' m')"
    by blast
  have run: "rotate_round dn u exppsi expphi l (A, tmp, rec) = Inr (A', tmp1, recurse rec)"
    unfolding rotate_round_def by (simp only: prod.case Let_def r0 sum.case gn r1 r2)
  have row: "tmp1 ! m = rot_sum ?dm psi (\<lambda>mm. alm A ! slot L l mm) l m" if m: "m \<le> l" for m
  proof -
    have "(\<Sum>mm = 1 ..< l + 1. rot_term ?dm (alm A ! slot L l mm * exppsi ! mm) l mm m) =
          (\<Sum>mm = 1 ..< l + 1.
             rot_term ?dm (alm A ! slot L l mm * polar 1 (- psi * real mm)) l mm m)"
    proof (rule sum.cong)
      fix mm assume "mm \<in> {1 ..< l + 1}"
      then have "mm \<le> L" using l by simp
      then show "rot_term ?dm (alm A ! slot L l mm * exppsi ! mm) l mm m =
                 rot_term ?dm (alm A ! slot L l mm * polar 1 (- psi * real mm)) l mm m"
        by (simp only: epv)
    qed simp
    then show ?thesis unfolding rot_sum_def v1[OF m] v0[OF m] by simp
  qed
  have "alm A' ! slot L l' m' =
          (if l' = l
           then rot_sum ?dm psi (\<lambda>mm. alm A ! slot L l mm) l m' * polar 1 (- phi * real m')
           else alm A ! slot L l' m')"
    if h: "m' \<le> l'" "l' \<le> L" for m' l'
  proof (cases "l' = l")
    case True
    with h have ml: "m' \<le> l" and mL: "m' \<le> L" by simp_all
    show ?thesis unfolding v2[OF h] using True row[OF ml] ehv[OF mL] by simp
  next
    case False
    then show ?thesis unfolding v2[OF h] by simp
  qed
  with run d2 t1 show ?thesis by blast
qed

text \<open>All rounds: every row is rotated, from its contents in the store handed in.\<close>

lemma rotate_rounds_spec:
  fixes A :: "complex Alm"
  assumes d: "dense_store L L A" and L1: "L + 1 < 2 ^ 64"
    and t: "length tmp = L + 1"
    and ep: "exppsi = map (\<lambda>m. polar 1 (- psi * real m)) [0 ..< L + 1]"
    and eh: "expphi = map (\<lambda>m. polar 1 (- phi * real m)) [0 ..< L + 1]"
  shows "\<exists>A' tmp'. for_loop 0 (L + 1) (rotate_round dn u exppsi expphi) (A, tmp, rec0)
                     = Inr (A', tmp', (recurse ^^ (L + 1)) rec0) \<and>
           dense_store L L A' \<and>
           (\<forall>m l. m \<le> l \<and> l \<le> L \<longrightarrow>
              alm A' ! slot L l m =
                rot_sum (rec_d ((recurse ^^ (l + 1)) rec0)) psi (\<lambda>mm. alm A ! slot L l mm) l m
                  * polar 1 (- phi * real m))"
proof -
  let ?new = "\<lambda>l m. rot_sum (rec_d ((recurse ^^ (l + 1)) rec0)) psi
                       (\<lambda>mm. alm A ! slot L l mm) l m * polar 1 (- phi * real m)"
  let ?I = "\<lambda>j (s :: complex Alm \<times> complex list \<times> wigner).
              dense_store L L (fst s) \<and> length (fst (snd s)) = L + 1 \<and>
              snd (snd s) = (recurse ^^ j) rec0 \<and>
              (\<forall>m l. m \<le> l \<and> l \<le> L \<longrightarrow>
                 alm (fst s) ! slot L l m = (if l < j then ?new l m else alm A ! slot L l m))"
  have "\<exists>s'. for_loop 0 (L + 1) (rotate_round dn u exppsi expphi) (A, tmp, rec0) = Inr s' \<and>
             ?I (L + 1) s'"
  proof (rule for_loop_total[where I = ?I])
    show "?I 0 (A, tmp, rec0)" using d t by simp
    show "0 \<le> L + 1" by simp
    fix j and s :: "complex Alm \<times> complex list \<times> wigner"
    assume j: "0 \<le> j" "j < L + 1" and I: "?I j s"
    obtain A1 tm rc where s: "s = (A1, tm, rc)" by (cases s)
    from j(2) have jL: "j \<le> L" by simp
    from I have d1: "dense_store L L A1" and ln: "length tm = L + 1"
      and rc: "rc = (recurse ^^ j) rec0"
      and v1: "\<And>m l. m \<le> l \<Longrightarrow> l \<le> L \<Longrightarrow>
                 alm A1 ! slot L l m = (if l < j then ?new l m else alm A ! slot L l m)"
      unfolding s by simp_all
    from rotate_round_spec[OF d1 jL L1 ln ep eh, of dn u rc] obtain A2 tm2 where
      r: "rotate_round dn u exppsi expphi j (A1, tm, rc) = Inr (A2, tm2, recurse rc)"
      and d2: "dense_store L L A2" and ln2: "length tm2 = L + 1"
      and v2: "\<And>m' l'. m' \<le> l' \<Longrightarrow> l' \<le> L \<Longrightarrow>
              alm A2 ! slot L l' m' =
                (if l' = j
                 then rot_sum (rec_d (recurse rc)) psi (\<lambda>mm. alm A1 ! slot L j mm) j m'
                        * polar 1 (- phi * real m')
                 else alm A1 ! slot L l' m')"
      by blast
    have rc2: "recurse rc = (recurse ^^ (j + 1)) rec0" unfolding rc by simp
    have same: "rot_sum dm psi (\<lambda>mm. alm A1 ! slot L j mm) j m
                  = rot_sum dm psi (\<lambda>mm. alm A ! slot L j mm) j m" for dm m
    proof (rule rot_sum_cong)
      fix mm assume "mm \<le> j"
      from v1[OF this jL] show "alm A1 ! slot L j mm = alm A ! slot L j mm" by simp
    qed
    have "alm A2 ! slot L l m = (if l < Suc j then ?new l m else alm A ! slot L l m)"
      if h: "m \<le> l" "l \<le> L" for m l
    proof (cases "l = j")
      case True
      show ?thesis unfolding v2[OF h] using True by (simp add: same rc2)
    next
      case False
      then show ?thesis unfolding v2[OF h] v1[OF h] by (auto simp: less_Suc_eq)
    qed
    then have "?I (Suc j) (A2, tm2, recurse rc)" using d2 ln2 rc by simp
    with r show "\<exists>t'. rotate_round dn u exppsi expphi j s = Inr t' \<and> ?I (Suc j) t'"
      unfolding s by blast
  qed
  then obtain A' tm' rc' where
    r: "for_loop 0 (L + 1) (rotate_round dn u exppsi expphi) (A, tmp, rec0) = Inr (A', tm', rc')"
    and d': "dense_store L L A'" and rc': "rc' = (recurse ^^ (L + 1)) rec0"
    and v: "\<And>m l. m \<le> l \<Longrightarrow> l \<le> L \<Longrightarrow>
                 alm A' ! slot L l m = (if l < L + 1 then ?new l m else alm A ! slot L l m)"
    by auto
  have "alm A' ! slot L l m = ?new l m" if h: "m \<le> l" "l \<le> L" for m l
    using v[OF h] h(2) by simp
  with r d' rc' show ?thesis by blast
qed

text \<open>The whole of \<^verbatim>\<open>rotate_alm\<close> for \<open>theta \<noteq> 0\<close> on a complete dense store.\<close>

lemma rotate_alm_spec:
  fixes A :: "complex Alm"
  assumes d: "dense_store L L A" and c: "complete A" and L1: "L + 1 < 2 ^ 64"
    and th: "theta \<noteq> 0"
  shows "\<exists>A' rec'. rotate_alm dn u A psi theta phi = Inr (A', Some rec') \<and>
           dense_store L L A' \<and>
           (\<forall>m l. m \<le> l \<and> l \<le> L \<longrightarrow>
              alm A' ! slot L l m =
                rot_sum (wigner_d L theta l) psi (\<lambda>mm. alm A ! slot L l mm) l m
                  * polar 1 (- phi * real m))"
proof -
  have lm: "lmax A = L" using d by (simp add: dense_store_def)
  have e: "int L + 1 = int (L + 1)" by simp
  have sz: "size_t (int L + 1) = L + 1" unfolding e by (rule size_t_int[OF L1])
  let ?ep = "map (\<lambda>m. polar 1 (- psi * real m)) [0 ..< L + 1]"
  let ?eh = "map (\<lambda>m. polar 1 (- phi * real m)) [0 ..< L + 1]"
  note fill = fill_spec[OF L1, of "\<lambda>m. polar 1 (- psi * real m)" "\<lambda>m. polar 1 (- phi * real m)"]
  have t: "length (replicate (L + 1) (0::complex)) = L + 1" by simp
  from rotate_rounds_spec[OF d L1 t refl refl, of dn u psi phi "wigner_d_risbo_openmp L theta"]
  obtain A' tmp' where
    r: "for_loop 0 (L + 1) (rotate_round dn u ?ep ?eh)
          (A, replicate (L + 1) 0, wigner_d_risbo_openmp L theta)
          = Inr (A', tmp', (recurse ^^ (L + 1)) (wigner_d_risbo_openmp L theta))"
    and d': "dense_store L L A'"
    and v: "\<forall>m l. m \<le> l \<and> l \<le> L \<longrightarrow>
              alm A' ! slot L l m =
                rot_sum (rec_d ((recurse ^^ (l + 1)) (wigner_d_risbo_openmp L theta))) psi
                   (\<lambda>mm. alm A ! slot L l mm) l m * polar 1 (- phi * real m)"
    by blast
  have "rotate_alm dn u A psi theta phi
          = Inr (A', Some ((recurse ^^ (L + 1)) (wigner_d_risbo_openmp L theta)))"
    unfolding rotate_alm_def Lmax_def lm Let_def
    by (simp only: c th not_True_eq_False not_False_eq_True not_not if_True if_False
          fill[unfolded sz] sum.case prod.case sz r)
  with d' v show ?thesis unfolding wigner_d_def by blast
qed

text \<open>
  The failures of \<^verbatim>\<open>rotate_alm\<close> past its first assertion: none of them is a
  \<open>ShapeError\<close>.
\<close>

lemma for_loop_no_shape:
  assumes "for_loop i n body s = Inl e"
    and "\<And>j t e'. body j t = Inl e' \<Longrightarrow> e' = OutOfRange \<or> e' = BadConversion"
  shows "e = OutOfRange \<or> e = BadConversion"
  using for_loop_error[OF assms(1)] assms(2) by blast

lemma Alm_get_error: "Alm_get A l m = Inl e \<Longrightarrow> e = OutOfRange \<or> e = BadConversion"
  by (auto simp: Alm_get_def index_def index_l0_def mav_get_def split: sum.splits if_splits)

lemma Alm_put_error: "Alm_put A l m x = Inl e \<Longrightarrow> e = OutOfRange \<or> e = BadConversion"
  by (auto simp: Alm_put_def index_def index_l0_def mav_set_def split: sum.splits if_splits)

lemma getNext_error: "getNext d t = Inl e \<Longrightarrow> e = OutOfRange \<or> e = BadConversion"
  by (auto simp: getNext_def Let_def split: SchedMode.splits if_splits)

lemma rotate_job_error:
  "rotate_job A l dm exppsi rng tmp = Inl e \<Longrightarrow> e = OutOfRange \<or> e = BadConversion"
  apply (simp add: rotate_job_def split: sum.splits prod.splits)
  apply (erule for_loop_no_shape)
  apply (simp add: Let_def split: sum.splits prod.splits if_splits)
   apply (erule Alm_get_error)
  apply (erule for_loop_no_shape)
  apply (auto simp: Let_def split: sum.splits prod.splits if_splits)
  done

lemma rotate_round_error:
  "rotate_round dn u exppsi expphi l st = Inl e \<Longrightarrow> e = OutOfRange \<or> e = BadConversion"
  apply (cases st)
  apply (simp add: rotate_round_def Let_def split: sum.splits prod.splits)
     apply (erule for_loop_no_shape)
     apply (auto split: sum.splits if_splits dest: Alm_get_error)[1]
    apply (erule getNext_error)
   apply (erule rotate_job_error)
  apply (erule for_loop_no_shape)
  apply (auto split: sum.splits if_splits dest: Alm_put_error)[1]
  done

lemma rotate_alm_error:
  assumes "complete A" "rotate_alm dn u A psi theta phi = Inl e"
  shows "e = OutOfRange \<or> e = BadConversion"
  using assms
  apply (simp add: rotate_alm_def Let_def split: if_splits sum.splits prod.splits)
    apply (erule for_loop_no_shape)
    apply (auto split: if_splits)[1]
   apply (erule for_loop_no_shape)
   apply (erule rotate_round_error)
  apply (erule for_loop_no_shape)
  apply (erule for_loop_no_shape)
  apply (auto split: sum.splits dest: Alm_get_error Alm_put_error)
  done

text \<open>The result of \<^verbatim>\<open>rotate_alm\<close> on a complete dense store, for every \<open>theta\<close>.\<close>

lemma rotate_alm_values:
  fixes A :: "complex Alm"
  assumes d: "dense_store L L A" and c: "complete A" and L1: "L + 1 < 2 ^ 64"
  shows "\<exists>A' r. rotate_alm dn u A psi theta phi = Inr (A', r) \<and>
           lmax A' = lmax A \<and> mval A' = mval A \<and> mstart A' = mstart A \<and>
           length (alm A') = length (alm A) \<and>
           (r = None \<longleftrightarrow> theta = 0) \<and>
           (\<forall>m l. m \<le> l \<and> l \<le> L \<longrightarrow>
              (\<exists>a. Alm_get A l m = Inr a \<and>
                   Alm_get A' l m =
                     Inr (if theta = 0 then a * polar 1 (- (psi + phi) * real m)
                          else rot_sum (wigner_d L theta l) psi
                                 (\<lambda>mm. projr (Alm_get A l mm)) l m
                               * polar 1 (- phi * real m))))"
proof -
  have get: "Alm_get A l m = Inr (alm A ! slot L l m)" if "m \<le> l" "l \<le> L" for l m
    using d _ that by (rule dense_get) (use that in simp)
  show ?thesis
  proof (cases "theta = 0")
    case True
    from rotate_alm_twist[OF d c, of dn u psi phi] obtain A' where
      run: "rotate_alm dn u A psi 0 phi = Inr (A', None)"
      and d': "dense_store L L A'"
      and v: "\<And>m l. m \<le> l \<Longrightarrow> l \<le> L \<Longrightarrow>
                 alm A' ! slot L l m = alm A ! slot L l m * polar 1 (- (psi + phi) * real m)"
      by blast
    note lay = dense_same_layout[OF d d']
    have "\<exists>a. Alm_get A l m = Inr a \<and>
               Alm_get A' l m =
                 Inr (if theta = 0 then a * polar 1 (- (psi + phi) * real m)
                      else rot_sum (wigner_d L theta l) psi
                             (\<lambda>mm. projr (Alm_get A l mm)) l m
                           * polar 1 (- phi * real m))"
      if h: "m \<le> l" "l \<le> L" for m l
    proof -
      from h have mL: "m \<le> L" by simp
      have g': "Alm_get A' l m = Inr (alm A' ! slot L l m)" using d' mL h by (rule dense_get)
      show ?thesis using get[OF h] g' v[OF h] True by simp
    qed
    with run lay True show ?thesis by blast
  next
    case False
    from rotate_alm_spec[OF d c L1 False, of dn u psi phi] obtain A' rec' where
      run: "rotate_alm dn u A psi theta phi = Inr (A', Some rec')"
      and d': "dense_store L L A'"
      and v: "\<And>m l. m \<le> l \<Longrightarrow> l \<le> L \<Longrightarrow>
              alm A' ! slot L l m =
                rot_sum (wigner_d L theta l) psi (\<lambda>mm. alm A ! slot L l mm) l m
                  * polar 1 (- phi * real m)"
      by blast
    note lay = dense_same_layout[OF d d']
    have "\<exists>a. Alm_get A l m = Inr a \<and>
               Alm_get A' l m =
                 Inr (if theta = 0 then a * polar 1 (- (psi + phi) * real m)
                      else rot_sum (wigner_d L theta l) psi
                             (\<lambda>mm. projr (Alm_get A l mm)) l m
                           * polar 1 (- phi * real m))"
      if h: "m \<le> l" "l \<le> L" for m l
    proof -
      from h have mL: "m \<le> L" by simp
      have g': "Alm_get A' l m = Inr (alm A' ! slot L l m)" using d' mL h by (rule dense_get)
      have "rot_sum (wigner_d L theta l) psi (\<lambda>mm. projr (Alm_get A l mm)) l m =
            rot_sum (wigner_d L theta l) psi (\<lambda>mm. alm A ! slot L l mm) l m"
      proof (rule rot_sum_cong)
        fix mm assume "mm \<le> l"
        from get[OF this h(2)] show "projr (Alm_get A l mm) = alm A ! slot L l mm" by simp
      qed
      then show ?thesis using get[OF h] g' v[OF h] False by simp
    qed
    moreover have "(Some rec' = None) \<longleftrightarrow> theta = 0" using False by simp
    ultimately show ?thesis using run lay by blast
  qed
qed

text \<open>The two Wigner matrices for \<open>theta = pi\<close> that a store with \<open>L = 1\<close> asks for.\<close>

lemma wigner_d_pi:
  "wigner_d 1 pi 0 0 0 = 1"
  "wigner_d 1 pi 1 0 0 = 0" "wigner_d 1 pi 1 0 1 = 0" "wigner_d 1 pi 1 0 2 = 1"
  "wigner_d 1 pi 1 1 0 = 0" "wigner_d 1 pi 1 1 1 = - 1" "wigner_d 1 pi 1 1 2 = 0"
  by (simp_all add: wigner_d_def recurse_def wigner_d_risbo_openmp_def put2_def Let_def
        numeral_2_eq_2)

lemma big_store_mval:
  "length (mval (projr (Alm_data (replicate 6442450945 (0::complex)) (2 ^ 32) (2 ^ 32))))
     = 2 ^ 32 + 1"
proof -
  have e: "(2::nat) ^ 32 = 4294967296" by simp
  from big_store obtain A :: "complex Alm" where
    A: "Alm_data (replicate 6442450945 0) 4294967296 4294967296 = Inr A" by blast
  from Alm_data_base(4)[OF A] show ?thesis unfolding e A by (simp del: upt_Suc)
qed

text \<open>
  Claim C9 says that the rotation of a complete store proceeds. The store for
  \<open>L = M = 2 ^ 32\<close> on a buffer of \<open>6442450945\<close> slots, the number that \<^verbatim>\<open>Num_Alms\<close>
  returns after wrap-around, has \<open>L + 1\<close> stored \<open>m\<close> values and is complete, and
  \<^verbatim>\<open>rotate_alm\<close> leaves its buffer: the rotation does not proceed to its end, and
  the failure is not a \<open>ShapeError\<close>.
\<close>

theorem C9_complete_store_not_rotated:
  "length (mval (projr (Alm_data (replicate 6442450945 (0::complex)) (2 ^ 32) (2 ^ 32))))
     = 2 ^ 32 + 1 \<and>
   \<not> isl (Alm_data (replicate 6442450945 (0::complex)) (2 ^ 32) (2 ^ 32)) \<and>
   complete (projr (Alm_data (replicate 6442450945 (0::complex)) (2 ^ 32) (2 ^ 32))) \<and>
   rotate_alm 1 \<lparr>nthreads = 0, nwork = 0, cur = 0, chunksize = 0, fact_max = 0,
                   nextstart = [], mode = SINGLE, single_done = False\<rparr>
     (projr (Alm_data (replicate 6442450945 (0::complex)) (2 ^ 32) (2 ^ 32))) (1 / 2) 0 (1 / 4)
     = Inl OutOfRange"
  by (rule conjI[OF big_store_mval big_store_rotate])

text \<open>
  Claim C9, amended. For a store \<open>A\<close> made by the constructor for \<open>L\<close> and \<open>M\<close>:
  \<open>A\<close> is complete if and only if it has \<open>L + 1\<close> stored \<open>m\<close> values; \<^verbatim>\<open>rotate_alm\<close>
  fails with a \<open>ShapeError\<close> if and only if \<open>A\<close> is not complete, and the message is
  then that of its assertion; and when \<open>A\<close> is complete and \<open>(L+1)(L+2)\<close> is below
  \<open>2 ^ 64\<close>, \<^verbatim>\<open>rotate_alm\<close> succeeds, keeps the layout, constructs a recurrer exactly
  when \<open>theta \<noteq> 0\<close>, and replaces every \<open>a(l, m)\<close>, \<open>m \<le> l \<le> L\<close>: by its product with
  \<open>exp(-i (psi + phi) m)\<close> when \<open>theta = 0\<close>, and otherwise by the sum \<open>rot_sum\<close> over
  the old row \<open>l\<close> with the Wigner matrix of degree \<open>l\<close>, times \<open>exp(-i phi m)\<close>.
\<close>

theorem C9_rotate_requires_complete:
  fixes A :: "complex Alm"
  assumes "Alm_data data L M = Inr A" "L < 2 ^ 64"
  shows "(complete A \<longleftrightarrow> length (mval A) = L + 1) \<and>
         ((\<exists>msg. rotate_alm dn u A psi theta phi = Inl (ShapeError msg)) \<longleftrightarrow> \<not> complete A) \<and>
         (\<not> complete A \<longrightarrow>
            rotate_alm dn u A psi theta phi
              = Inl (ShapeError ''rotate_alm: need complete A_lm set'')) \<and>
         (complete A \<and> (L + 1) * (L + 2) < 2 ^ 64 \<longrightarrow>
            (\<exists>A' r. rotate_alm dn u A psi theta phi = Inr (A', r) \<and>
               lmax A' = lmax A \<and> mval A' = mval A \<and> mstart A' = mstart A \<and>
               length (alm A') = length (alm A) \<and>
               (r = None \<longleftrightarrow> theta = 0) \<and>
               (\<forall>m l. m \<le> l \<and> l \<le> L \<longrightarrow>
                  (\<exists>a. Alm_get A l m = Inr a \<and>
                       Alm_get A' l m =
                         Inr (if theta = 0 then a * polar 1 (- (psi + phi) * real m)
                              else rot_sum (wigner_d L theta l) psi
                                     (\<lambda>mm. projr (Alm_get A l mm)) l m
                                   * polar 1 (- phi * real m))))))"
proof -
  note b = Alm_data_base[OF assms(1)]
  have c1: "complete A \<longleftrightarrow> length (mval A) = L + 1"
  proof (cases "L + 1 < 2 ^ 64")
    case True
    then show ?thesis by (simp add: complete_def b(3,4))
  next
    case False
    with assms(2) have e: "L + 1 = 2 ^ 64" by simp
    have "(L + 1) mod 2 ^ 64 = 0" unfolding e by simp
    moreover have "Suc M \<noteq> L + 1" using b(2) e by simp
    ultimately show ?thesis by (simp add: complete_def b(3,4) del: upt_Suc)
  qed
  have c3: "rotate_alm dn u A psi theta phi
              = Inl (ShapeError ''rotate_alm: need complete A_lm set'')" if "\<not> complete A"
    using that by (simp add: rotate_alm_def Let_def)
  have c2: "(\<exists>msg. rotate_alm dn u A psi theta phi = Inl (ShapeError msg)) \<longleftrightarrow> \<not> complete A"
  proof
    assume "\<exists>msg. rotate_alm dn u A psi theta phi = Inl (ShapeError msg)"
    then obtain msg where m: "rotate_alm dn u A psi theta phi = Inl (ShapeError msg)" by blast
    show "\<not> complete A"
    proof
      assume "complete A"
      from rotate_alm_error[OF this m] show False by simp
    qed
  next
    assume "\<not> complete A"
    from c3[OF this] show "\<exists>msg. rotate_alm dn u A psi theta phi = Inl (ShapeError msg)"
      by blast
  qed
  have c4: "\<exists>A' r. rotate_alm dn u A psi theta phi = Inr (A', r) \<and>
               lmax A' = lmax A \<and> mval A' = mval A \<and> mstart A' = mstart A \<and>
               length (alm A') = length (alm A) \<and>
               (r = None \<longleftrightarrow> theta = 0) \<and>
               (\<forall>m l. m \<le> l \<and> l \<le> L \<longrightarrow>
                  (\<exists>a. Alm_get A l m = Inr a \<and>
                       Alm_get A' l m =
                         Inr (if theta = 0 then a * polar 1 (- (psi + phi) * real m)
                              else rot_sum (wigner_d L theta l) psi
                                     (\<lambda>mm. projr (Alm_get A l mm)) l m
                                   * polar 1 (- phi * real m))))"
    if h: "complete A \<and> (L + 1) * (L + 2) < 2 ^ 64"
  proof -
    from h have c: "complete A" and nw: "(L + 1) * (L + 2) < 2 ^ 64" by simp_all
    from complete_dense[OF assms(1) c nw] have d: "dense_store L L A" by blast
    have "L + 1 \<le> (L + 1) * (L + 2)" by simp
    then have L1: "L + 1 < 2 ^ 64" using nw by (rule le_less_trans)
    from d c L1 show ?thesis by (rule rotate_alm_values)
  qed
  from c1 c2 c3 c4 show ?thesis by blast
qed

theorem C9_rotate_requires_complete_witness:
  "Alm_data [1, 2, 3 :: complex] 1 1
     = Inr \<lparr>lmax = 1, arrsize = 3, mval = [0, 1], mstart = [0, 1], alm = [1, 2, 3]\<rparr> \<and>
   (1::nat) < 2 ^ 64 \<and>
   complete \<lparr>lmax = 1, arrsize = 3, mval = [0, 1], mstart = [0, 1], alm = [1, 2, 3 :: complex]\<rparr> \<and>
   ((1::nat) + 1) * (1 + 2) < 2 ^ 64 \<and>
   (\<exists>A' r. rotate_alm 1 \<lparr>nthreads = 0, nwork = 0, cur = 0, chunksize = 0, fact_max = 0,
                            nextstart = [], mode = SINGLE, single_done = False\<rparr>
              \<lparr>lmax = 1, arrsize = 3, mval = [0, 1], mstart = [0, 1], alm = [1, 2, 3]\<rparr>
              0 pi 0 = Inr (A', r) \<and>
          r \<noteq> None \<and> mval A' = [0, 1] \<and> mstart A' = [0, 1] \<and> length (alm A') = 3 \<and>
          Alm_get A' 0 0 = Inr 1 \<and> Alm_get A' 1 0 = Inr (- 2) \<and> Alm_get A' 1 1 = Inr (- 3)) \<and>
   Alm_data [1, 2 :: complex] 1 0
     = Inr \<lparr>lmax = 1, arrsize = 2, mval = [0], mstart = [0], alm = [1, 2]\<rparr> \<and>
   \<not> complete \<lparr>lmax = 1, arrsize = 2, mval = [0], mstart = [0], alm = [1, 2 :: complex]\<rparr> \<and>
   rotate_alm 1 \<lparr>nthreads = 0, nwork = 0, cur = 0, chunksize = 0, fact_max = 0,
                   nextstart = [], mode = SINGLE, single_done = False\<rparr>
     \<lparr>lmax = 1, arrsize = 2, mval = [0], mstart = [0], alm = [1, 2]\<rparr> 0 pi 0
     = Inl (ShapeError ''rotate_alm: need complete A_lm set'')"
proof -
  let ?A = "\<lparr>lmax = 1, arrsize = 3, mval = [0, 1], mstart = [0, 1], alm = [1, 2, 3 :: complex]\<rparr>"
  let ?B = "\<lparr>lmax = 1, arrsize = 2, mval = [0], mstart = [0], alm = [1, 2 :: complex]\<rparr>"
  let ?U = "\<lparr>nthreads = 0, nwork = 0, cur = 0, chunksize = 0, fact_max = 0,
             nextstart = [], mode = SINGLE, single_done = False\<rparr>"
  have a: "Alm_data [1, 2, 3 :: complex] 1 1 = Inr ?A"
    by (simp add: Alm_data_def Alm_Base_lmax_mmax_def Num_Alms_def dense_loop.simps
          size_t_def ptrdiff_t_def replicate_two)
  have bb: "Alm_data [1, 2 :: complex] 1 0 = Inr ?B"
    by (simp add: Alm_data_def Alm_Base_lmax_mmax_def Num_Alms_def dense_loop.simps
          size_t_def ptrdiff_t_def)
  have l1: "(1::nat) < 2 ^ 64" by simp
  have c: "complete ?A" by (simp add: complete_def)
  have nc: "\<not> complete ?B" by (simp add: complete_def)
  have nw: "((1::nat) + 1) * (1 + 2) < 2 ^ 64" by simp
  have g: "Alm_get ?A 0 0 = Inr 1" "Alm_get ?A 1 0 = Inr 2" "Alm_get ?A 1 1 = Inr 3"
    by (simp_all add: Alm_get_def index_def index_l0_def mav_get_def size_t_def)
  have s1: "{1 ..< 1 + 1} = {1::nat}" by auto
  have s0: "{1 ..< 0 + 1} = ({} :: nat set)" by auto
  have r00: "rot_sum (wigner_d 1 pi 0) 0 (\<lambda>mm. projr (Alm_get ?A 0 mm)) 0 0 * polar 1 (- 0 * real 0)
               = 1"
    unfolding rot_sum_def s0 using g wigner_d_pi by (simp add: polar_def)
  have r10: "rot_sum (wigner_d 1 pi 1) 0 (\<lambda>mm. projr (Alm_get ?A 1 mm)) 1 0 * polar 1 (- 0 * real 0)
               = - 2"
    unfolding rot_sum_def s1 using g wigner_d_pi
    by (simp add: polar_def rot_term_def Let_def complex_eq_iff numeral_2_eq_2)
  have r11: "rot_sum (wigner_d 1 pi 1) 0 (\<lambda>mm. projr (Alm_get ?A 1 mm)) 1 1 * polar 1 (- 0 * real 1)
               = - 3"
    unfolding rot_sum_def s1 using g wigner_d_pi
    by (simp add: polar_def rot_term_def Let_def complex_eq_iff numeral_2_eq_2)
  note t = C9_rotate_requires_complete[OF a l1, of 1 ?U 0 pi 0]
  from t c nw obtain A' r where
    run: "rotate_alm 1 ?U ?A 0 pi 0 = Inr (A', r)"
    and lay: "mval A' = mval ?A" "mstart A' = mstart ?A" "length (alm A') = length (alm ?A)"
    and rn: "r = None \<longleftrightarrow> pi = 0"
    and v: "\<And>m l. m \<le> l \<Longrightarrow> l \<le> 1 \<Longrightarrow>
              (\<exists>a. Alm_get ?A l m = Inr a \<and>
                   Alm_get A' l m =
                     Inr (if pi = 0 then a * polar 1 (- (0 + 0) * real m)
                          else rot_sum (wigner_d 1 pi l) 0
                                 (\<lambda>mm. projr (Alm_get ?A l mm)) l m
                               * polar 1 (- 0 * real m)))"
    by blast
  have v00: "Alm_get A' 0 0 = Inr 1" using v[of 0 0] r00 by simp
  have v10: "Alm_get A' 1 0 = Inr (- 2)" using v[of 0 1] r10 by simp
  have v11: "Alm_get A' 1 1 = Inr (- 3)" using v[of 1 1] r11 by simp
  have rn': "r \<noteq> None" using rn by simp
  have first: "\<exists>A' r. rotate_alm 1 ?U ?A 0 pi 0 = Inr (A', r) \<and>
          r \<noteq> None \<and> mval A' = [0, 1] \<and> mstart A' = [0, 1] \<and> length (alm A') = 3 \<and>
          Alm_get A' 0 0 = Inr 1 \<and> Alm_get A' 1 0 = Inr (- 2) \<and> Alm_get A' 1 1 = Inr (- 3)"
    using run rn' lay v00 v10 v11 by simp
  note t2 = C9_rotate_requires_complete[OF bb l1, of 1 ?U 0 pi 0]
  from t2 nc have second: "rotate_alm 1 ?U ?B 0 pi 0
     = Inl (ShapeError ''rotate_alm: need complete A_lm set'')" by blast
  from a l1 c nw first bb nc second show ?thesis by (intro conjI)
qed


end
